theory Spec2Isabelle
  imports Main "HOL-Library.Word"
begin

section \<open>The character input stream of 8cc (file.c)\<close>

text \<open>
  A shallow embedding of \<^verbatim>\<open>file.c\<close>: the stack of input units, the reading of
  one character with newline canonicalisation, line splicing and the newline
  supplied before the end of input, the pushback of characters, and the position
  string.

  Characters are the \<^verbatim>\<open>int\<close> values the C code computes with. A string is the list
  of the values its \<^verbatim>\<open>char\<close>s convert to, up to its terminating NUL (the sign of
  \<^verbatim>\<open>char\<close> is the platform's choice: both choices are lists of this type). The
  counters \<^verbatim>\<open>line\<close> and \<^verbatim>\<open>column\<close> are C \<^verbatim>\<open>int\<close>s: words of 32 bits, read as
  signed numbers by \<open>sint\<close>. Their \<^verbatim>\<open>++\<close> and \<^verbatim>\<open>--\<close> wrap around, as they do in the
  compiled program: one more than 2147483647 is -2147483648.
\<close>

subsection \<open>Constants of the C library\<close>

definition EOF :: int where
  "EOF = - 1"

abbreviation NUL :: int where "NUL \<equiv> 0"
abbreviation NL :: int where "NL \<equiv> 10"
abbreviation CR :: int where "CR \<equiv> 13"
abbreviation BACKSLASH :: int where "BACKSLASH \<equiv> 92"

type_synonym c_int = "32 word"

subsection \<open>The data model\<close>

text \<open>
  \<^verbatim>\<open>File\<close> is declared in \<^verbatim>\<open>8cc.h\<close>; its fields here are the ones \<^verbatim>\<open>file.c\<close>
  uses.
  \<^item> \<open>file_p\<close>: the field \<^verbatim>\<open>file\<close>, a \<^verbatim>\<open>FILE *\<close>; \<open>None\<close> is the null pointer,
    \<open>Some bs\<close> an open stream whose unread bytes are \<open>bs\<close> (each what \<^verbatim>\<open>getc\<close>
    returns for it). The unit is the only reader of its stream.
  \<^item> \<open>p\<close>: the cursor into the string, as the characters from the cursor on.
  \<^item> \<open>name\<close>: \<open>None\<close> is the null pointer \<^verbatim>\<open>calloc\<close> leaves in a string unit.
  \<^item> \<open>line\<close>, \<open>column\<close>: the two counters.
  \<^item> \<open>last_c\<close>: the field \<^verbatim>\<open>last\<close>.
  \<^item> \<open>buf\<close>, \<open>buflen\<close>: the pushback array and the number of its entries in use.
    The number of elements of the array, \<^verbatim>\<open>sizeof(f->buf) / sizeof(f->buf[0])\<close>, is
    \<open>length (buf f)\<close>.
\<close>

record File =
  file_p :: "int list option"
  p :: "int list"
  name :: "string option"
  line :: c_int
  column :: c_int
  last_c :: int
  buf :: "int list"
  buflen :: nat
  autopop :: bool

datatype error = Assertion_Failed | Out_Of_Bounds

text \<open>
  Modelled from the spec: the vector (\<^verbatim>\<open>vec_push\<close>, \<^verbatim>\<open>vec_pop\<close>, \<^verbatim>\<open>vec_tail\<close> and
  \<^verbatim>\<open>vec_len\<close>, defined outside \<^verbatim>\<open>file.c\<close>) is a stack with push, pop, peek-top and
  depth, where pop and top fail on the empty stack. The stack is the list of its
  units, the top first.
\<close>

definition vec_push :: "File list \<Rightarrow> File \<Rightarrow> File list" where
  "vec_push files f = f # files"

definition vec_tail :: "File list \<Rightarrow> error + File" where
  "vec_tail files = (case files of [] \<Rightarrow> Inl Assertion_Failed | f # _ \<Rightarrow> Inr f)"

definition vec_pop :: "File list \<Rightarrow> error + File list" where
  "vec_pop files = (case files of [] \<Rightarrow> Inl Assertion_Failed | _ # rest \<Rightarrow> Inr rest)"

definition vec_len :: "File list \<Rightarrow> nat" where
  "vec_len files = length files"

text \<open>
  \<^verbatim>\<open>make_file\<close> and \<^verbatim>\<open>make_file_string\<close>: \<^verbatim>\<open>calloc\<close> zeroes every field that is not
  set. \<open>cap\<close> is the number of elements of \<^verbatim>\<open>buf\<close> in the declaration of \<^verbatim>\<open>File\<close>.
\<close>

definition make_file :: "nat \<Rightarrow> int list \<Rightarrow> string \<Rightarrow> bool \<Rightarrow> File" where
  "make_file cap bs nm ap =
     \<lparr>file_p = Some bs, p = [], name = Some nm, line = 1, column = 0, last_c = 0,
      buf = replicate cap 0, buflen = 0, autopop = ap\<rparr>"

definition make_file_string :: "nat \<Rightarrow> int list \<Rightarrow> bool \<Rightarrow> File" where
  "make_file_string cap s ap =
     \<lparr>file_p = None, p = s, name = None, line = 1, column = 0, last_c = 0,
      buf = replicate cap 0, buflen = 0, autopop = ap\<rparr>"

subsection \<open>Reading one raw character\<close>

text \<open>\<^verbatim>\<open>getc\<close> and \<^verbatim>\<open>ungetc\<close> of the C library, on the unread bytes of a stream.\<close>

definition getc :: "int list \<Rightarrow> int \<times> int list" where
  "getc bs = (case bs of [] \<Rightarrow> (EOF, []) | b # bs' \<Rightarrow> (b, bs'))"

definition ungetc :: "int \<Rightarrow> int list \<Rightarrow> int list" where
  "ungetc c bs = (if c = EOF then bs else c # bs)"

text \<open>
  The character an exhausted unit delivers: a newline, unless the last character
  read from the origin was a newline or the end of input.
\<close>

definition at_end :: "File \<Rightarrow> int" where
  "at_end f = (if last_c f = NL \<or> last_c f = EOF then EOF else NL)"

text \<open>\<^verbatim>\<open>readc_file\<close>, for a unit whose stream has the unread bytes \<open>bs\<close>.\<close>

definition readc_file :: "int list \<Rightarrow> File \<Rightarrow> int \<times> File" where
  "readc_file bs f =
     (let (c, bs1) = getc bs in
      if c = EOF then
        (let c' = at_end f in (c', f\<lparr>file_p := Some bs1, last_c := c'\<rparr>))
      else if c = CR then
        (let (c2, bs2) = getc bs1;
             bs3 = (if c2 \<noteq> NL then ungetc c2 bs2 else bs2)
         in (NL, f\<lparr>file_p := Some bs3, last_c := NL\<rparr>))
      else (c, f\<lparr>file_p := Some bs1, last_c := c\<rparr>))"

text \<open>
  \<^verbatim>\<open>readc_string\<close>. \<open>deref cs\<close> is \<^verbatim>\<open>*f->p\<close> for the cursor \<open>cs\<close>: the character at
  the cursor, NUL when nothing is left. The cursor only moves when that is not NUL.
\<close>

definition deref :: "int list \<Rightarrow> int" where
  "deref cs = (case cs of [] \<Rightarrow> NUL | c # _ \<Rightarrow> c)"

definition readc_string :: "File \<Rightarrow> int \<times> File" where
  "readc_string f =
     (if deref (p f) = NUL then
        (let c = at_end f in (c, f\<lparr>last_c := c\<rparr>))
      else if deref (p f) = CR then
        (let p1 = tl (p f);
             p2 = (if deref p1 = NL then tl p1 else p1)
         in (NL, f\<lparr>p := p2, last_c := NL\<rparr>))
      else (deref (p f), f\<lparr>p := tl (p f), last_c := deref (p f)\<rparr>))"

text \<open>
  The position update at the end of \<^verbatim>\<open>get\<close>: \<^verbatim>\<open>f->line++\<close> and \<^verbatim>\<open>f->column++\<close> on
  C \<^verbatim>\<open>int\<close>s, the additions of 32-bit words.
\<close>

definition advance :: "int \<Rightarrow> File \<Rightarrow> File" where
  "advance c f =
     (if c = NL then f\<lparr>line := line f + 1, column := 0\<rparr>
      else f\<lparr>column := column f + 1\<rparr>)"

text \<open>
  \<^verbatim>\<open>get\<close>. Reading \<^verbatim>\<open>buf\<close> beyond its elements, which the C code does not check
  (and which a count within the array never does), is the error \<open>Out_Of_Bounds\<close>.
\<close>

definition get :: "File list \<Rightarrow> error + (int \<times> File list)" where
  "get files =
     (case vec_tail files of
        Inl e \<Rightarrow> Inl e
      | Inr f \<Rightarrow>
          if buflen f > 0 then
            (if buflen f - 1 < length (buf f)
             then Inr (buf f ! (buflen f - 1),
                       advance (buf f ! (buflen f - 1)) (f\<lparr>buflen := buflen f - 1\<rparr>) # tl files)
             else Inl Out_Of_Bounds)
          else
            (case file_p f of
               Some bs \<Rightarrow> (let (c, f') = readc_file bs f in Inr (c, advance c f' # tl files))
             | None \<Rightarrow> (let (c, f') = readc_string f in Inr (c, advance c f' # tl files))))"

subsection \<open>Pushback\<close>

definition unreadc :: "int \<Rightarrow> File list \<Rightarrow> error + File list" where
  "unreadc c files =
     (if c < 0 then Inr files
      else
        (case vec_tail files of
           Inl e \<Rightarrow> Inl e
         | Inr f \<Rightarrow>
             if \<not> buflen f < length (buf f) then Inl Assertion_Failed
             else
               (let f1 = f\<lparr>buf := (buf f)[buflen f := c], buflen := buflen f + 1\<rparr>;
                    f2 = (if c = NL then f1\<lparr>column := 0, line := line f1 - 1\<rparr>
                          else f1\<lparr>column := column f1 - 1\<rparr>)
                in Inr (f2 # tl files))))"

subsection \<open>Reading one character\<close>

text \<open>
  One pass through the body of the loop of \<^verbatim>\<open>readc\<close>: it ends in
  \<^verbatim>\<open>continue\<close> or in \<^verbatim>\<open>return\<close>.
\<close>

datatype pass = Continue "File list" | Return int "File list"

definition readc_pass :: "File list \<Rightarrow> error + pass" where
  "readc_pass files =
     (case get files of
        Inl e \<Rightarrow> Inl e
      | Inr (c, fs) \<Rightarrow>
          if c = EOF then
            (case vec_tail fs of
               Inl e \<Rightarrow> Inl e
             | Inr f \<Rightarrow>
                 if autopop f then
                   (case vec_pop fs of Inl e \<Rightarrow> Inl e | Inr fs' \<Rightarrow> Inr (Continue fs'))
                 else Inr (Return c fs))
          else if c \<noteq> BACKSLASH then Inr (Return c fs)
          else
            (case get fs of
               Inl e \<Rightarrow> Inl e
             | Inr (c2, fs2) \<Rightarrow>
                 if c2 = NL then Inr (Continue fs2)
                 else
                   (case unreadc c2 fs2 of
                      Inl e \<Rightarrow> Inl e
                    | Inr fs3 \<Rightarrow> Inr (Return c fs3))))"

text \<open>
  What is left to read bounds the loop: three for every pending character (in the
  pushback or in the origin), one for the newline still owed at the end of input,
  and one for the unit itself.
\<close>

definition pending :: "File \<Rightarrow> nat" where
  "pending f =
     3 * (buflen f + (case file_p f of Some bs \<Rightarrow> length bs | None \<Rightarrow> length (p f)))
     + (if last_c f = NL \<or> last_c f = EOF then 0 else 1)"

fun stack_size :: "File list \<Rightarrow> nat" where
  "stack_size [] = 0"
| "stack_size (f # fs) = Suc (pending f) + stack_size fs"

subsubsection \<open>The loop ends\<close>

lemma at_end_cases:
  "at_end f = EOF \<and> (last_c f = NL \<or> last_c f = EOF) \<or>
   at_end f = NL \<and> last_c f \<noteq> NL \<and> last_c f \<noteq> EOF"
  by (simp add: at_end_def EOF_def)

lemma pending_upd [simp]:
  "pending (f\<lparr>line := l\<rparr>) = pending f"
  "pending (f\<lparr>column := k\<rparr>) = pending f"
  "pending (f\<lparr>buf := b\<rparr>) = pending f"
  by (simp_all add: pending_def split: option.split)

lemma pending_advance [simp]: "pending (advance c f) = pending f"
  by (simp add: advance_def)

lemma autopop_advance [simp]: "autopop (advance c f) = autopop f"
  by (simp add: advance_def)

lemma readc_string_pending:
  assumes "readc_string f = (c, f')" "file_p f = None" "buflen f = 0"
  shows "pending f' + (if c = EOF then 0 else if c = NL then 1 else 2) \<le> pending f"
  using assms at_end_cases [of f]
  by (cases "p f"; cases "tl (p f)")
    (auto simp: readc_string_def deref_def pending_def EOF_def Let_def split: if_splits)

lemma readc_string_autopop:
  "readc_string f = (c, f') \<Longrightarrow> autopop f' = autopop f"
  by (auto simp: readc_string_def Let_def split: if_splits)

lemma readc_file_pending:
  assumes "readc_file bs f = (c, f')" "file_p f = Some bs" "buflen f = 0"
  shows "pending f' + (if c = EOF then 0 else if c = NL then 1 else 2) \<le> pending f"
  using assms at_end_cases [of f]
  by (cases bs; cases "tl bs")
    (auto simp: readc_file_def getc_def ungetc_def pending_def EOF_def Let_def split: if_splits)

lemma readc_file_autopop:
  "readc_file bs f = (c, f') \<Longrightarrow> autopop f' = autopop f"
  by (auto simp: readc_file_def Let_def split: if_splits prod.splits)


lemma get_pending:
  assumes "get files = Inr (c, fs)"
  shows "\<exists>f f' rest. files = f # rest \<and> fs = f' # rest \<and> autopop f' = autopop f \<and>
           pending f' + (if c = EOF then 0 else if c = NL then 1 else 2) \<le> pending f"
proof (cases files)
  case Nil
  with assms show ?thesis by (simp add: get_def vec_tail_def)
next
  case (Cons f rest)
  show ?thesis
  proof (cases "buflen f > 0")
    case True
    with assms Cons have "fs = advance c (f\<lparr>buflen := buflen f - 1\<rparr>) # rest"
      by (auto simp: get_def vec_tail_def split: if_splits)
    moreover have "pending (f\<lparr>buflen := buflen f - 1\<rparr>) + 3 = pending f"
      using True by (cases "file_p f") (auto simp: pending_def)
    ultimately show ?thesis using Cons by simp
  next
    case False
    note nobuf = this
    show ?thesis
    proof (cases "file_p f")
      case None
      obtain c' f' where r: "readc_string f = (c', f')" by (cases "readc_string f")
      with assms Cons nobuf None have "c' = c" "fs = advance c f' # rest"
        by (auto simp: get_def vec_tail_def)
      with r readc_string_pending [of f c f'] readc_string_autopop [of f c f'] None nobuf Cons
      show ?thesis by simp
    next
      case (Some bs)
      obtain c' f' where r: "readc_file bs f = (c', f')" by (cases "readc_file bs f")
      with assms Cons nobuf Some have "c' = c" "fs = advance c f' # rest"
        by (auto simp: get_def vec_tail_def)
      with r readc_file_pending [of bs f c f'] readc_file_autopop [of bs f c f'] Some nobuf Cons
      show ?thesis by simp
    qed
  qed
qed

lemma get_stack_size:
  assumes "get files = Inr (c, fs)"
  shows "stack_size fs + (if c = EOF then 0 else if c = NL then 1 else 2) \<le> stack_size files"
  using get_pending [OF assms] by auto

lemma unreadc_stack_size:
  assumes "unreadc c files = Inr fs"
  shows "stack_size fs \<le> stack_size files + 3"
proof (cases "c < 0")
  case True
  with assms show ?thesis by (simp add: unreadc_def)
next
  case False
  with assms obtain f rest where "files = f # rest"
    by (cases files) (auto simp: unreadc_def vec_tail_def)
  with assms False show ?thesis
    by (auto simp: unreadc_def vec_tail_def Let_def pending_def split: if_splits option.split)
qed

lemma get_nonempty: "get files = Inr (c, fs) \<Longrightarrow> fs \<noteq> []"
  using get_pending by blast

lemma readc_pass_Continue:
  assumes "readc_pass files = Inr (Continue fs)"
  shows "stack_size fs < stack_size files"
proof -
  from assms obtain c fs1 where g1: "get files = Inr (c, fs1)"
    by (auto simp: readc_pass_def split: sum.splits)
  show ?thesis
  proof (cases "c = EOF")
    case True
    from get_nonempty [OF g1] obtain f1 r1 where fs1: "fs1 = f1 # r1" by (cases fs1) auto
    with assms g1 True have "fs = r1"
      by (auto simp: readc_pass_def vec_tail_def vec_pop_def split: if_splits)
    with fs1 get_stack_size [OF g1] show ?thesis by simp
  next
    case False
    with assms g1 have bs: "c = BACKSLASH"
      by (auto simp: readc_pass_def split: if_splits)
    with assms g1 False obtain c2 where g2: "get fs1 = Inr (c2, fs)" and "c2 = NL"
      by (auto simp: readc_pass_def split: if_splits sum.splits)
    with get_stack_size [OF g1] get_stack_size [OF g2] bs show ?thesis
      by (simp add: EOF_def)
  qed
qed

lemma readc_pass_Return:
  assumes "readc_pass files = Inr (Return c fs)"
  shows "stack_size fs + (if c = EOF then 0 else 1) \<le> stack_size files"
proof -
  from assms obtain c1 fs1 where g1: "get files = Inr (c1, fs1)"
    by (auto simp: readc_pass_def split: sum.splits)
  show ?thesis
  proof (cases "c1 = EOF")
    case True
    with assms g1 have "c = EOF" "fs = fs1"
      by (auto simp: readc_pass_def split: if_splits sum.splits)
    with get_stack_size [OF g1] show ?thesis by simp
  next
    case False
    note ne = this
    show ?thesis
    proof (cases "c1 = BACKSLASH")
      case False
      with assms g1 ne have "c = c1" "fs = fs1"
        by (auto simp: readc_pass_def split: if_splits)
      with get_stack_size [OF g1] ne show ?thesis by (simp split: if_splits)
    next
      case True
      with assms g1 ne obtain c2 fs2 where g2: "get fs1 = Inr (c2, fs2)"
        and c2: "c2 \<noteq> NL" and u: "unreadc c2 fs2 = Inr fs" and c: "c = c1"
        by (auto simp: readc_pass_def split: if_splits sum.splits)
      show ?thesis
      proof (cases "c2 < 0")
        case True
        with u have "fs = fs2" by (simp add: unreadc_def)
        with get_stack_size [OF g1] get_stack_size [OF g2] ne c \<open>c1 = BACKSLASH\<close>
        show ?thesis by (simp add: EOF_def split: if_splits)
      next
        case False
        then have "c2 \<noteq> EOF" by (simp add: EOF_def)
        with get_stack_size [OF g1] get_stack_size [OF g2] unreadc_stack_size [OF u]
          c2 ne c \<open>c1 = BACKSLASH\<close>
        show ?thesis by (simp add: EOF_def split: if_splits)
      qed
    qed
  qed
qed

subsubsection \<open>\<^verbatim>\<open>readc\<close>: the loop\<close>

function readc :: "File list \<Rightarrow> error + (int \<times> File list)" where
  "readc files =
     (case readc_pass files of
        Inl e \<Rightarrow> Inl e
      | Inr (Continue fs) \<Rightarrow> readc fs
      | Inr (Return c fs) \<Rightarrow> Inr (c, fs))"
  by pat_completeness auto
termination
  by (relation "measure stack_size") (auto dest: readc_pass_Continue)

declare readc.simps [simp del]

lemma readc_stack_size:
  "readc files = Inr (c, fs) \<Longrightarrow> stack_size fs + (if c = EOF then 0 else 1) \<le> stack_size files"
proof (induction files rule: readc.induct)
  case (1 files)
  show ?case
  proof (cases "readc_pass files")
    case (Inl e)
    with "1.prems" show ?thesis by (simp add: readc.simps [of files])
  next
    case (Inr r)
    show ?thesis
    proof (cases r)
      case (Continue fs1)
      with Inr "1.prems" have "readc fs1 = Inr (c, fs)" by (simp add: readc.simps [of files])
      with "1.IH" [OF Inr Continue] readc_pass_Continue [of files fs1] Inr Continue
      show ?thesis by simp
    next
      case (Return c1 fs1)
      with Inr "1.prems" have "c1 = c" "fs1 = fs" by (simp_all add: readc.simps [of files])
      with readc_pass_Return [of files c fs] Inr Return show ?thesis by simp
    qed
  qed
qed

subsection \<open>The stack of units\<close>

definition current_file :: "File list \<Rightarrow> error + File" where
  "current_file files = vec_tail files"

definition insert_stream :: "nat \<Rightarrow> int list \<Rightarrow> string \<Rightarrow> File list \<Rightarrow> File list" where
  "insert_stream cap bs nm files = vec_push files (make_file cap bs nm True)"

definition push_stream :: "nat \<Rightarrow> int list \<Rightarrow> string \<Rightarrow> File list \<Rightarrow> File list" where
  "push_stream cap bs nm files = vec_push files (make_file cap bs nm False)"

definition push_stream_string :: "nat \<Rightarrow> int list \<Rightarrow> File list \<Rightarrow> File list" where
  "push_stream_string cap s files = vec_push files (make_file_string cap s False)"

definition pop_stream :: "File list \<Rightarrow> error + File list" where
  "pop_stream files = vec_pop files"

definition stream_depth :: "File list \<Rightarrow> nat" where
  "stream_depth files = vec_len files"

subsection \<open>The position string\<close>

text \<open>
  Modelled from the spec: \<^verbatim>\<open>format\<close> (defined outside \<^verbatim>\<open>file.c\<close>) renders its
  arguments as \<^verbatim>\<open>printf\<close> does; with \<^verbatim>\<open>"%s:%d:%d"\<close> the result is the name, the
  line and the column, the numbers as signed decimals, with colons between them.
  \<^verbatim>\<open>input_position\<close> passes the name of a string unit, a null pointer, to
  \<^verbatim>\<open>%s\<close> as it is; the C library prints \<^verbatim>\<open>(null)\<close> for it.
\<close>

fun digits :: "nat \<Rightarrow> string" where
  "digits n =
     (if n < 10 then [char_of (48 + n)]
      else digits (n div 10) @ [char_of (48 + n mod 10)])"

declare digits.simps [simp del]

definition decimal :: "int \<Rightarrow> string" where
  "decimal i = (if i < 0 then CHR ''-'' # digits (nat (- i)) else digits (nat i))"

definition format_s :: "string option \<Rightarrow> string" where
  "format_s s = (case s of None \<Rightarrow> ''(null)'' | Some cs \<Rightarrow> cs)"

definition format_position :: "string option \<Rightarrow> c_int \<Rightarrow> c_int \<Rightarrow> string" where
  "format_position nm l c =
     format_s nm @ '':'' @ decimal (sint l) @ '':'' @ decimal (sint c)"

definition input_position :: "File list \<Rightarrow> error + string" where
  "input_position files =
     (if vec_len files = 0 then Inr ''(unknown)''
      else
        (case vec_tail files of
           Inl e \<Rightarrow> Inl e
         | Inr f \<Rightarrow> Inr (format_position (name f) (line f) (column f))))"

subsection \<open>Sequences of calls\<close>

text \<open>\<open>readc_n n\<close>: \<^verbatim>\<open>readc\<close> called \<open>n\<close> times, with the characters it returned.\<close>

fun readc_n :: "nat \<Rightarrow> File list \<Rightarrow> error + (int list \<times> File list)" where
  "readc_n 0 files = Inr ([], files)"
| "readc_n (Suc n) files =
     (case readc files of
        Inl e \<Rightarrow> Inl e
      | Inr (c, fs) \<Rightarrow>
          (case readc_n n fs of
             Inl e \<Rightarrow> Inl e
           | Inr (cs, fs') \<Rightarrow> Inr (c # cs, fs')))"

text \<open>\<open>unreadc_all cs\<close>: \<^verbatim>\<open>unreadc\<close> called on each character of \<open>cs\<close> in turn.\<close>

fun unreadc_all :: "int list \<Rightarrow> File list \<Rightarrow> error + File list" where
  "unreadc_all [] files = Inr files"
| "unreadc_all (c # cs) files =
     (case unreadc c files of
        Inl e \<Rightarrow> Inl e
      | Inr fs \<Rightarrow> unreadc_all cs fs)"

text \<open>
  \<open>read_all\<close>: \<^verbatim>\<open>readc\<close> called until it returns \<^verbatim>\<open>EOF\<close>, with the characters
  returned before that.
\<close>

function read_all :: "File list \<Rightarrow> error + (int list \<times> File list)" where
  "read_all files =
     (case readc files of
        Inl e \<Rightarrow> Inl e
      | Inr (c, fs) \<Rightarrow>
          if c = EOF then Inr ([], fs)
          else
            (case read_all fs of
               Inl e \<Rightarrow> Inl e
             | Inr (cs, fs') \<Rightarrow> Inr (c # cs, fs')))"
  by pat_completeness auto
termination
  by (relation "measure stack_size") (auto dest: readc_stack_size)

declare read_all.simps [simp del]

section \<open>Notions used to state and prove the properties\<close>

text \<open>
  A unit is exhausted when nothing is pushed back, its origin is at its end, and the
  last character read from the origin was a newline or the end of input: the next
  raw character is \<^verbatim>\<open>EOF\<close>.
\<close>

definition exhausted :: "File \<Rightarrow> bool" where
  "exhausted f \<longleftrightarrow>
     buflen f = 0 \<and>
     (file_p f = Some [] \<or> file_p f = None \<and> deref (p f) = NUL) \<and>
     (last_c f = NL \<or> last_c f = EOF)"

text \<open>The number a string of decimal digits denotes.\<close>

definition digits_value :: "string \<Rightarrow> nat" where
  "digits_value s = foldl (\<lambda>a ch. 10 * a + (of_char ch - 48)) 0 s"

text \<open>
  The characters \<^verbatim>\<open>readc_string\<close> delivers, call after call, from a string with the
  cursor at \<open>cs\<close> when the last character read was \<open>l\<close>, the newline supplied at the
  end of input included; every later call delivers \<^verbatim>\<open>EOF\<close>.
\<close>

fun delivered :: "int \<Rightarrow> int list \<Rightarrow> int list" where
  "delivered l [] = (if l = NL \<or> l = EOF then [] else [NL])"
| "delivered l (c # cs) =
     (if c = NUL then (if l = NL \<or> l = EOF then [] else [NL])
      else if c = CR then NL # delivered NL (if deref cs = NL then tl cs else cs)
      else c # delivered c cs)"

text \<open>
  Two units simulate each other when they differ in the cursor only and deliver the
  same characters; two stacks, when they are equal or differ in such top units.
\<close>

definition sim :: "File \<Rightarrow> File \<Rightarrow> bool" where
  "sim f g \<longleftrightarrow>
     file_p f = None \<and> g = f\<lparr>p := p g\<rparr> \<and>
     delivered (last_c f) (p f) = delivered (last_c f) (p g)"

definition sims :: "File list \<Rightarrow> File list \<Rightarrow> bool" where
  "sims fs gs \<longleftrightarrow> fs = gs \<or> (\<exists>f g rest. fs = f # rest \<and> gs = g # rest \<and> sim f g)"

fun rel_pass :: "pass \<Rightarrow> pass \<Rightarrow> bool" where
  "rel_pass (Continue fs) (Continue gs) = sims fs gs"
| "rel_pass (Return c fs) (Return d gs) = (c = d \<and> sims fs gs)"
| "rel_pass (Continue fs) (Return d gs) = False"
| "rel_pass (Return c fs) (Continue gs) = False"

text \<open>
  The reference of the newline claim: every carriage return followed by a newline
  becomes a newline, then every carriage return that is left becomes a newline.
\<close>

fun crlf_to_nl :: "int list \<Rightarrow> int list" where
  "crlf_to_nl (c # d # cs) =
     (if c = CR \<and> d = NL then NL # crlf_to_nl cs else c # crlf_to_nl (d # cs))"
| "crlf_to_nl [c] = [c]"
| "crlf_to_nl [] = []"

definition presub :: "int list \<Rightarrow> int list" where
  "presub S = map (\<lambda>c. if c = CR then NL else c) (crlf_to_nl S)"

text \<open>
  A unit is ready when it is not popped automatically, its pushback count is within
  the pushback array, and the array has an element.
\<close>

definition ready :: "File \<Rightarrow> bool" where
  "ready f \<longleftrightarrow> \<not> autopop f \<and> buflen f \<le> length (buf f) \<and> 0 < length (buf f)"

text \<open>
  The pushback of a unit as a stack, the character that is read next first; and the
  raw character the unit delivers next.
\<close>

definition pushed :: "File \<Rightarrow> int list" where
  "pushed f = rev (take (buflen f) (buf f))"

definition peek :: "File \<Rightarrow> int" where
  "peek f =
     (if buflen f > 0 then buf f ! (buflen f - 1)
      else (case file_p f of Some bs \<Rightarrow> fst (readc_file bs f) | None \<Rightarrow> fst (readc_string f)))"

text \<open>No backslash in the list has a newline right after it.\<close>

fun splice_free :: "int list \<Rightarrow> bool" where
  "splice_free (c # d # cs) = (\<not> (c = BACKSLASH \<and> d = NL) \<and> splice_free (d # cs))"
| "splice_free cs = True"

text \<open>
  The round trip of \<open>n\<close> characters: \<open>n\<close> calls of \<^verbatim>\<open>readc\<close>, then \<^verbatim>\<open>unreadc\<close> of the
  characters they returned, the last one first, then \<open>n\<close> calls of \<^verbatim>\<open>readc\<close> again.
  The result is the characters of the first reads, the stack after the calls of
  \<^verbatim>\<open>unreadc\<close>, and the characters of the second reads.
\<close>

definition round_trip :: "nat \<Rightarrow> File list \<Rightarrow> error + (int list \<times> File list \<times> int list)" where
  "round_trip n files =
     (case readc_n n files of
        Inl e \<Rightarrow> Inl e
      | Inr (cs, fs1) \<Rightarrow>
          (case unreadc_all (rev cs) fs1 of
             Inl e \<Rightarrow> Inl e
           | Inr fs2 \<Rightarrow>
               (case readc_n n fs2 of
                  Inl e \<Rightarrow> Inl e
                | Inr (cs', fs3) \<Rightarrow> Inr (cs, fs2, cs'))))"

text \<open>What a caller sees of a round trip: the characters and the position string.\<close>

definition observed ::
  "error + (int list \<times> File list \<times> int list) \<Rightarrow> error + (int list \<times> (error + string) \<times> int list)" where
  "observed r = map_sum id (\<lambda>(cs, fs, cs'). (cs, input_position fs, cs')) r"

section \<open>Lemmas\<close>

subsection \<open>Exhausted units\<close>

lemma get_exhausted:
  assumes "exhausted f"
  shows "get (f # rest) = Inr (EOF, f\<lparr>last_c := EOF, column := column f + 1\<rparr> # rest)"
proof (cases "file_p f")
  case None
  with assms show ?thesis
    by (auto simp: exhausted_def get_def vec_tail_def readc_string_def at_end_def advance_def
        EOF_def Let_def)
next
  case (Some bs)
  with assms have bs: "bs = []" and fp: "file_p f = Some []" by (auto simp: exhausted_def)
  have "f\<lparr>file_p := Some []\<rparr> = f" using fp by simp
  then have "f\<lparr>file_p := Some [], last_c := EOF\<rparr> = f\<lparr>last_c := EOF\<rparr>" by simp
  with assms Some bs show ?thesis
    by (auto simp: exhausted_def get_def vec_tail_def readc_file_def getc_def at_end_def
        advance_def EOF_def Let_def)
qed

lemma exhausted_after_eof:
  "exhausted f \<Longrightarrow> exhausted (f\<lparr>last_c := EOF, column := k\<rparr>)"
  by (simp add: exhausted_def)

lemma readc_exhausted:
  assumes "exhausted f" "\<not> autopop f"
  shows "readc (f # rest) = Inr (EOF, f\<lparr>last_c := EOF, column := column f + 1\<rparr> # rest)"
  using assms
  by (simp add: readc.simps [of "f # rest"] readc_pass_def get_exhausted vec_tail_def)


lemma readc_n_exhausted:
  assumes "exhausted f" "\<not> autopop f"
  shows "readc_n (Suc k) (f # rest)
           = Inr (replicate (Suc k) EOF,
                  f\<lparr>last_c := EOF, column := column f + 1 + of_nat k\<rparr> # rest)"
  using assms
proof (induction k arbitrary: f)
  case 0
  then show ?case by (simp add: readc_exhausted)
next
  case (Suc k)
  let ?f1 = "f\<lparr>last_c := EOF, column := column f + 1\<rparr>"
  have e: "exhausted ?f1" using Suc.prems(1) by (rule exhausted_after_eof)
  have a: "\<not> autopop ?f1" using Suc.prems(2) by simp
  have r: "readc (f # rest) = Inr (EOF, ?f1 # rest)"
    using Suc.prems by (rule readc_exhausted)
  have "readc_n (Suc (Suc k)) (f # rest) =
      (case readc_n (Suc k) (?f1 # rest) of Inl e \<Rightarrow> Inl e | Inr (cs, fs') \<Rightarrow> Inr (EOF # cs, fs'))"
    by (simp only: readc_n.simps(2) [of "Suc k"] r sum.case prod.case)
  also have "\<dots> = Inr (replicate (Suc (Suc k)) EOF,
      ?f1\<lparr>last_c := EOF, column := column ?f1 + 1 + of_nat k\<rparr> # rest)"
    by (simp only: Suc.IH [OF e a] sum.case prod.case replicate_Suc)
  finally show ?case by (simp add: add.assoc)
qed

subsection \<open>Decimal numbers are read back\<close>

lemma digit_char: "d < 10 \<Longrightarrow> of_char (char_of (48 + d :: nat)) = (48 + d :: nat)"
  by simp

lemma digits_value_digits: "digits_value (digits n) = n"
proof (induction n rule: digits.induct)
  case (1 n)
  show ?case
  proof (cases "n < 10")
    case True
    then show ?thesis
      by (simp add: digits.simps [of n] digits_value_def)
  next
    case False
    have m: "n mod 10 < 10" by simp
    from False "1.IH" have "digits_value (digits (n div 10)) = n div 10" by simp
    with False m show ?thesis
      by (simp add: digits.simps [of n] digits_value_def)
  qed
qed

lemma digits_inj: "digits m = digits n \<Longrightarrow> m = n"
  by (metis digits_value_digits)

lemma digits_not_minus: "ch \<in> set (digits n) \<Longrightarrow> ch \<noteq> CHR ''-''"
proof (induction n rule: digits.induct)
  case (1 n)
  show ?case
  proof (cases "n < 10")
    case True
    with "1.prems" have "ch = char_of (48 + n)" by (simp add: digits.simps [of n])
    then have "of_char ch = 48 + n" using True by simp
    then show ?thesis by auto
  next
    case False
    have m: "n mod 10 < 10" by simp
    from False "1.prems" consider "ch \<in> set (digits (n div 10))" | "ch = char_of (48 + n mod 10)"
      by (auto simp: digits.simps [of n])
    then show ?thesis
    proof cases
      case 1
      with False "1.IH" show ?thesis by simp
    next
      case 2
      then have "of_char ch = 48 + n mod 10" using m by simp
      then show ?thesis by auto
    qed
  qed
qed

lemma digits_nonempty: "digits n \<noteq> []"
  by (simp add: digits.simps [of n])

lemma decimal_inj:
  assumes "decimal i = decimal j"
  shows "i = j"
proof -
  have neg: "CHR ''-'' # digits m \<noteq> digits n" for m n
  proof
    assume "CHR ''-'' # digits m = digits n"
    then have "CHR ''-'' \<in> set (digits n)" by (metis list.set_intros(1))
    then show False using digits_not_minus by blast
  qed
  show ?thesis
  proof (cases "i < 0"; cases "j < 0")
    assume "i < 0" "j < 0"
    with assms have "digits (nat (- i)) = digits (nat (- j))" by (simp add: decimal_def)
    then have "nat (- i) = nat (- j)" by (rule digits_inj)
    with \<open>i < 0\<close> \<open>j < 0\<close> show ?thesis by simp
  next
    assume "i < 0" "\<not> j < 0"
    with assms neg show ?thesis by (simp add: decimal_def)
  next
    assume "\<not> i < 0" "j < 0"
    with assms neg [of "nat (- j)" "nat i"] show ?thesis by (simp add: decimal_def)
  next
    assume "\<not> i < 0" "\<not> j < 0"
    with assms have "digits (nat i) = digits (nat j)" by (simp add: decimal_def)
    then have "nat i = nat j" by (rule digits_inj)
    with \<open>\<not> i < 0\<close> \<open>\<not> j < 0\<close> show ?thesis by simp
  qed
qed

lemma digit_chars:
  "char_of (48::nat) = CHR ''0''" "char_of (49::nat) = CHR ''1''" "char_of (50::nat) = CHR ''2''"
  "char_of (51::nat) = CHR ''3''" "char_of (52::nat) = CHR ''4''" "char_of (53::nat) = CHR ''5''"
  "char_of (54::nat) = CHR ''6''" "char_of (55::nat) = CHR ''7''" "char_of (56::nat) = CHR ''8''"
  "char_of (57::nat) = CHR ''9''"
  by code_simp+

lemmas position_eval =
  input_position_def vec_len_def vec_tail_def format_position_def format_s_def decimal_def
  digits.simps digit_chars

lemma format_position_column:
  assumes "format_position nm l c = format_position nm l c'"
  shows "c = c'"
proof -
  from assms have "decimal (sint c) = decimal (sint c')" by (simp add: format_position_def)
  then have "sint c = sint c'" by (rule decimal_inj)
  then show ?thesis by (rule signed_word_eqI)
qed

subsection \<open>The shape of the stack after a read\<close>






subsection \<open>Reading from a string unit\<close>



lemma readc_return:
  "readc_pass files = Inr (Return c fs) \<Longrightarrow> readc files = Inr (c, fs)"
  by (simp add: readc.simps [of files])





subsection \<open>Units that deliver the same characters\<close>

lemma readc_string_delivered:
  assumes "readc_string f = (c, f')"
  shows "\<exists>q. f' = f\<lparr>p := q, last_c := c\<rparr> \<and>
           (delivered (last_c f) (p f) = [] \<and> c = EOF \<and> delivered c q = [] \<or>
            delivered (last_c f) (p f) = c # delivered c q)"
proof (cases "p f")
  case Nil
  have "f\<lparr>last_c := c\<rparr> = f\<lparr>p := [], last_c := c\<rparr>" using Nil by simp
  with assms Nil show ?thesis
    by (intro exI [of _ "[]"])
      (auto simp: readc_string_def deref_def at_end_def EOF_def Let_def split: if_splits)
next
  case (Cons a as)
  show ?thesis
  proof (cases "a = NUL")
    case True
    have "f\<lparr>last_c := c\<rparr> = f\<lparr>p := a # as, last_c := c\<rparr>" using Cons by simp
    with assms Cons True show ?thesis
      by (intro exI [of _ "a # as"])
        (auto simp: readc_string_def deref_def at_end_def EOF_def Let_def split: if_splits)
  next
    case False
    note nz = this
    show ?thesis
    proof (cases "a = CR")
      case True
      with assms Cons show ?thesis
        by (intro exI [of _ "if deref as = NL then tl as else as"])
          (auto simp: readc_string_def deref_def Let_def)
    next
      case False
      with assms Cons nz show ?thesis
        by (intro exI [of _ as]) (auto simp: readc_string_def deref_def Let_def)
    qed
  qed
qed

lemma sim_readc_string:
  assumes "sim f g" "readc_string f = (c, f')" "readc_string g = (d, g')"
  shows "c = d \<and> sim f' g'"
proof -
  from assms(1) have fp: "file_p f = None" and g: "g = f\<lparr>p := p g\<rparr>"
    and dl: "delivered (last_c f) (p f) = delivered (last_c f) (p g)"
    by (simp_all add: sim_def)
  from g have lg: "last_c g = last_c f" by (metis File.select_convs(6) File.surjective File.update_convs(2))
  from readc_string_delivered [OF assms(2)] obtain q where
    f': "f' = f\<lparr>p := q, last_c := c\<rparr>" and
    df: "delivered (last_c f) (p f) = [] \<and> c = EOF \<and> delivered c q = [] \<or>
         delivered (last_c f) (p f) = c # delivered c q" by blast
  from readc_string_delivered [OF assms(3)] lg obtain r where
    g': "g' = g\<lparr>p := r, last_c := d\<rparr>" and
    dg: "delivered (last_c f) (p g) = [] \<and> d = EOF \<and> delivered d r = [] \<or>
         delivered (last_c f) (p g) = d # delivered d r" by auto
  from df dg dl have cd: "c = d" and dd: "delivered c q = delivered c r" by auto
  from g' g have "g' = f\<lparr>p := r, last_c := d\<rparr>" by (metis File.update_convs(2) File.surjective)
  with f' cd have "g' = f'\<lparr>p := p g'\<rparr>" by simp
  moreover from f' fp have "file_p f' = None" by simp
  moreover from f' g' dd cd have "delivered (last_c f') (p f') = delivered (last_c f') (p g')" by simp
  ultimately show ?thesis using cd by (simp add: sim_def)
qed


lemma sim_fields:
  assumes "sim f g"
  shows "buflen g = buflen f" "buf g = buf f" "autopop g = autopop f" "file_p g = None"
    "file_p f = None" "last_c g = last_c f"
proof -
  from assms have g: "g = f\<lparr>p := p g\<rparr>" and fp: "file_p f = None" by (simp_all add: sim_def)
  show "buflen g = buflen f" by (subst g) simp
  show "buf g = buf f" by (subst g) simp
  show "autopop g = autopop f" by (subst g) simp
  show "file_p g = None" using fp by (subst g) simp
  show "file_p f = None" by (rule fp)
  show "last_c g = last_c f" by (subst g) simp
qed

lemma sim_update:
  assumes "sim f g"
  shows "sim (f\<lparr>buflen := n\<rparr>) (g\<lparr>buflen := n\<rparr>)"
    "sim (f\<lparr>buf := b\<rparr>) (g\<lparr>buf := b\<rparr>)"
    "sim (f\<lparr>line := l\<rparr>) (g\<lparr>line := l\<rparr>)"
    "sim (f\<lparr>column := k\<rparr>) (g\<lparr>column := k\<rparr>)"
proof -
  from assms have g: "g = f\<lparr>p := p g\<rparr>" and fp: "file_p f = None"
    and d: "delivered (last_c f) (p f) = delivered (last_c f) (p g)" by (simp_all add: sim_def)
  have 1: "g\<lparr>buflen := n\<rparr> = f\<lparr>buflen := n, p := p g\<rparr>" by (subst g) simp
  have 2: "g\<lparr>buf := b\<rparr> = f\<lparr>buf := b, p := p g\<rparr>" by (subst g) simp
  have 3: "g\<lparr>line := l\<rparr> = f\<lparr>line := l, p := p g\<rparr>" by (subst g) simp
  have 4: "g\<lparr>column := k\<rparr> = f\<lparr>column := k, p := p g\<rparr>" by (subst g) simp
  show "sim (f\<lparr>buflen := n\<rparr>) (g\<lparr>buflen := n\<rparr>)" using fp d by (simp add: sim_def 1)
  show "sim (f\<lparr>buf := b\<rparr>) (g\<lparr>buf := b\<rparr>)" using fp d by (simp add: sim_def 2)
  show "sim (f\<lparr>line := l\<rparr>) (g\<lparr>line := l\<rparr>)" using fp d by (simp add: sim_def 3)
  show "sim (f\<lparr>column := k\<rparr>) (g\<lparr>column := k\<rparr>)" using fp d by (simp add: sim_def 4)
qed

lemma sim_advance:
  assumes "sim f g"
  shows "sim (advance c f) (advance c g)"
proof -
  from assms have g: "g = f\<lparr>p := p g\<rparr>" by (simp add: sim_def)
  have l: "line g = line f" by (subst g) simp
  have k: "column g = column f" by (subst g) simp
  show ?thesis
  proof (cases "c = NL")
    case True
    from sim_update(4) [OF sim_update(3) [OF assms, of "line f + 1"], of 0] True l
    show ?thesis by (simp add: advance_def)
  next
    case False
    from sim_update(4) [OF assms, of "column f + 1"] False k
    show ?thesis by (simp add: advance_def)
  qed
qed


lemma sims_refl [simp]: "sims fs fs"
  by (simp add: sims_def)

lemma sims_top: "sim f g \<Longrightarrow> sims (f # rest) (g # rest)"
  by (auto simp: sims_def)

lemma rel_refl_result:
  "rel_sum (=) (rel_prod (=) sims) (r :: error + (int \<times> File list)) r"
  by (cases r) auto

lemma sim_get:
  assumes "sim f g"
  shows "rel_sum (=) (rel_prod (=) sims) (get (f # rest)) (get (g # rest))"
proof (cases "buflen f > 0")
  case True
  note pos = this
  show ?thesis
  proof (cases "buflen f - 1 < length (buf f)")
    case True
    let ?c = "buf f ! (buflen f - 1)"
    have "sim (advance ?c (f\<lparr>buflen := buflen f - 1\<rparr>)) (advance ?c (g\<lparr>buflen := buflen f - 1\<rparr>))"
      by (rule sim_advance [OF sim_update(1) [OF assms]])
    then show ?thesis using pos True sim_fields [OF assms]
      by (simp add: get_def vec_tail_def sims_top)
  next
    case False
    then show ?thesis using pos sim_fields [OF assms]
      by (simp add: get_def vec_tail_def)
  qed
next
  case False
  obtain c f' where rf: "readc_string f = (c, f')" by (cases "readc_string f")
  obtain d g' where rg: "readc_string g = (d, g')" by (cases "readc_string g")
  from sim_readc_string [OF assms rf rg] have cd: "c = d" and s': "sim f' g'" by simp_all
  from s' have "sim (advance c f') (advance c g')" by (rule sim_advance)
  then show ?thesis using False rf rg cd sim_fields [OF assms]
    by (simp add: get_def vec_tail_def sims_top)
qed

lemma sims_get:
  assumes "sims fs gs"
  shows "rel_sum (=) (rel_prod (=) sims) (get fs) (get gs)"
  using assms sim_get rel_refl_result unfolding sims_def by blast

lemma sim_unreadc:
  assumes "sim f g"
  shows "rel_sum (=) sims (unreadc c (f # rest)) (unreadc c (g # rest))"
proof (cases "c < 0")
  case True
  then show ?thesis using assms by (simp add: unreadc_def sims_top)
next
  case False
  note nn = this
  show ?thesis
  proof (cases "buflen f < length (buf f)")
    case False
    then show ?thesis using nn sim_fields [OF assms] by (simp add: unreadc_def vec_tail_def)
  next
    case True
    from assms have g: "g = f\<lparr>p := p g\<rparr>" by (simp add: sim_def)
    have l: "line g = line f" by (subst g) simp
    have k: "column g = column f" by (subst g) simp
    let ?f1 = "f\<lparr>buf := (buf f)[buflen f := c], buflen := buflen f + 1\<rparr>"
    let ?g1 = "g\<lparr>buf := (buf f)[buflen f := c], buflen := buflen f + 1\<rparr>"
    have s1: "sim ?f1 ?g1" by (rule sim_update(1) [OF sim_update(2) [OF assms]])
    have "sim (?f1\<lparr>column := 0, line := line f - 1\<rparr>) (?g1\<lparr>column := 0, line := line f - 1\<rparr>)"
      by (rule sim_update(3) [OF sim_update(4) [OF s1]])
    moreover have "sim (?f1\<lparr>column := column f - 1\<rparr>) (?g1\<lparr>column := column f - 1\<rparr>)"
      by (rule sim_update(4) [OF s1])
    ultimately show ?thesis using True nn sim_fields [OF assms] l k
      by (auto simp: unreadc_def vec_tail_def Let_def sims_top)
  qed
qed

lemma sims_unreadc:
  assumes "sims fs gs"
  shows "rel_sum (=) sims (unreadc c fs) (unreadc c gs)"
proof -
  have "rel_sum (=) sims (r :: error + File list) r" for r by (cases r) auto
  with assms sim_unreadc show ?thesis unfolding sims_def by blast
qed


lemma sims_tail:
  assumes "sims fs gs"
  shows "rel_sum (=) (\<lambda>f g. autopop f = autopop g) (vec_tail fs) (vec_tail gs)"
    "rel_sum (=) sims (vec_pop fs) (vec_pop gs)"
proof -
  have 1: "rel_sum (=) (\<lambda>f g. autopop f = autopop g) (vec_tail fs) (vec_tail fs)"
    by (cases "vec_tail fs") auto
  have 2: "rel_sum (=) sims (vec_pop fs) (vec_pop fs)"
    by (cases "vec_pop fs") auto
  from assms consider "fs = gs" | f g rest where "fs = f # rest" "gs = g # rest" "sim f g"
    by (auto simp: sims_def)
  then show "rel_sum (=) (\<lambda>f g. autopop f = autopop g) (vec_tail fs) (vec_tail gs)"
    using 1 by cases (auto simp: vec_tail_def dest: sim_fields(3))
  from assms consider "fs = gs" | f g rest where "fs = f # rest" "gs = g # rest" "sim f g"
    by (auto simp: sims_def)
  then show "rel_sum (=) sims (vec_pop fs) (vec_pop gs)"
    using 2 by cases (auto simp: vec_pop_def)
qed

lemma sims_readc_pass:
  assumes "sims fs gs"
  shows "rel_sum (=) rel_pass (readc_pass fs) (readc_pass gs)"
proof -
  note g1 = sims_get [OF assms]
  show ?thesis
  proof (cases "get fs")
    case (Inl e)
    with g1 have "get gs = Inl e" by (cases "get gs") auto
    with Inl show ?thesis by (simp add: readc_pass_def)
  next
    case (Inr r)
    obtain c fs1 where r: "r = (c, fs1)" by (cases r)
    with g1 Inr obtain gs1 where gg: "get gs = Inr (c, gs1)" and s1: "sims fs1 gs1"
      by (cases "get gs") auto
    show ?thesis
    proof (cases "c = EOF")
      case True
      note t = sims_tail [OF s1]
      show ?thesis
      proof (cases "vec_tail fs1")
        case (Inl e)
        with t(1) have "vec_tail gs1 = Inl e" by (cases "vec_tail gs1") auto
        with Inl Inr r gg True show ?thesis by (simp add: readc_pass_def)
      next
        case (Inr f1)
        with t(1) obtain g1 where vg: "vec_tail gs1 = Inr g1" and ap: "autopop f1 = autopop g1"
          by (cases "vec_tail gs1") auto
        show ?thesis
        proof (cases "autopop f1")
          case False
          with Inr vg ap \<open>get fs = Inr r\<close> r gg True s1 show ?thesis
            by (simp add: readc_pass_def)
        next
          case True
          from t(2) have "rel_sum (=) rel_pass
              (case vec_pop fs1 of Inl e \<Rightarrow> Inl e | Inr fs' \<Rightarrow> Inr (Continue fs'))
              (case vec_pop gs1 of Inl e \<Rightarrow> Inl e | Inr fs' \<Rightarrow> Inr (Continue fs'))"
            by (cases "vec_pop fs1"; cases "vec_pop gs1") auto
          with True Inr vg ap \<open>get fs = Inr r\<close> r gg \<open>c = EOF\<close> show ?thesis
            by (simp add: readc_pass_def)
        qed
      qed
    next
      case False
      note ne = this
      show ?thesis
      proof (cases "c = BACKSLASH")
        case False
        with ne Inr r gg s1 show ?thesis by (simp add: readc_pass_def)
      next
        case True
        note g2 = sims_get [OF s1]
        show ?thesis
        proof (cases "get fs1")
          case (Inl e)
          with g2 have "get gs1 = Inl e" by (cases "get gs1") auto
          with Inl Inr r gg ne True show ?thesis by (simp add: readc_pass_def)
        next
          case (Inr r2)
          obtain c2 fs2 where r2: "r2 = (c2, fs2)" by (cases r2)
          with g2 Inr obtain gs2 where gg2: "get gs1 = Inr (c2, gs2)" and s2: "sims fs2 gs2"
            by (cases "get gs1") auto
          show ?thesis
          proof (cases "c2 = NL")
            case True
            with Inr r2 gg2 s2 \<open>get fs = Inr r\<close> r gg ne \<open>c = BACKSLASH\<close> show ?thesis
              by (simp add: readc_pass_def)
          next
            case False
            from sims_unreadc [OF s2, of c2] have "rel_sum (=) rel_pass
              (case unreadc c2 fs2 of Inl e \<Rightarrow> Inl e | Inr fs3 \<Rightarrow> Inr (Return c fs3))
              (case unreadc c2 gs2 of Inl e \<Rightarrow> Inl e | Inr fs3 \<Rightarrow> Inr (Return c fs3))"
              by (cases "unreadc c2 fs2"; cases "unreadc c2 gs2") auto
            with False Inr r2 gg2 \<open>get fs = Inr r\<close> r gg ne \<open>c = BACKSLASH\<close> show ?thesis
              by (auto simp: readc_pass_def)
          qed
        qed
      qed
    qed
  qed
qed

lemma sims_readc:
  "sims fs gs \<Longrightarrow> rel_sum (=) (rel_prod (=) sims) (readc fs) (readc gs)"
proof (induction fs arbitrary: gs rule: readc.induct)
  case (1 files)
  note rp = sims_readc_pass [OF "1.prems"]
  show ?case
  proof (cases "readc_pass files")
    case (Inl e)
    with rp have "readc_pass gs = Inl e" by (cases "readc_pass gs") auto
    with Inl show ?thesis by (simp add: readc.simps [of files] readc.simps [of gs])
  next
    case (Inr r)
    show ?thesis
    proof (cases r)
      case (Continue fs1)
      with rp Inr obtain gs1 where rg: "readc_pass gs = Inr (Continue gs1)" and s1: "sims fs1 gs1"
        by (cases "readc_pass gs"; cases "projr (readc_pass gs)") auto
      from "1.IH" [OF Inr Continue s1] Inr Continue rg show ?thesis
        by (simp add: readc.simps [of files] readc.simps [of gs])
    next
      case (Return c fs1)
      with rp Inr obtain gs1 where rg: "readc_pass gs = Inr (Return c gs1)" and s1: "sims fs1 gs1"
        by (cases "readc_pass gs"; cases "projr (readc_pass gs)") auto
      with Inr Return show ?thesis
        by (simp add: readc.simps [of files] readc.simps [of gs])
    qed
  qed
qed

lemma sims_readc_n:
  "sims fs gs \<Longrightarrow> rel_sum (=) (rel_prod (=) sims) (readc_n n fs) (readc_n n gs)"
proof (induction n arbitrary: fs gs)
  case 0
  then show ?case by simp
next
  case (Suc n)
  note r = sims_readc [OF Suc.prems]
  show ?case
  proof (cases "readc fs")
    case (Inl e)
    with r have "readc gs = Inl e" by (cases "readc gs") auto
    with Inl show ?thesis by simp
  next
    case (Inr x)
    obtain c fs1 where x: "x = (c, fs1)" by (cases x)
    with r Inr obtain gs1 where rg: "readc gs = Inr (c, gs1)" and s1: "sims fs1 gs1"
      by (cases "readc gs") auto
    from Suc.IH [OF s1] Inr x rg show ?thesis
      by (cases "readc_n n fs1"; cases "readc_n n gs1") auto
  qed
qed

lemma sims_read_all:
  "sims fs gs \<Longrightarrow> rel_sum (=) (rel_prod (=) sims) (read_all fs) (read_all gs)"
proof (induction fs arbitrary: gs rule: read_all.induct)
  case (1 files)
  note r = sims_readc [OF "1.prems"]
  show ?case
  proof (cases "readc files")
    case (Inl e)
    with r have "readc gs = Inl e" by (cases "readc gs") auto
    with Inl show ?thesis by (simp add: read_all.simps [of files] read_all.simps [of gs])
  next
    case (Inr x)
    obtain c fs1 where x: "x = (c, fs1)" by (cases x)
    with r Inr obtain gs1 where rg: "readc gs = Inr (c, gs1)" and s1: "sims fs1 gs1"
      by (cases "readc gs") auto
    show ?thesis
    proof (cases "c = EOF")
      case True
      with Inr x rg s1 show ?thesis
        by (simp add: read_all.simps [of files] read_all.simps [of gs])
    next
      case False
      from "1.IH" [OF Inr x [symmetric] False s1] Inr x rg False show ?thesis
        by (cases "read_all fs1"; cases "read_all gs1")
          (auto simp: read_all.simps [of files] read_all.simps [of gs])
    qed
  qed
qed

lemma rel_result_chars:
  assumes "rel_sum (=) (rel_prod (=) R) r s"
  shows "map_sum id fst r = map_sum id fst s"
  using assms by (cases r; cases s) auto

lemma delivered_crlf_to_nl:
  "delivered l (map (\<lambda>c. if c = CR then NL else c) (crlf_to_nl S)) = delivered l S"
proof (induction S arbitrary: l rule: crlf_to_nl.induct)
  case (1 c d cs)
  then show ?case by (auto simp: deref_def)
next
  case (2 c)
  then show ?case by (simp add: deref_def)
next
  case 3
  then show ?case by simp
qed

lemma delivered_presub: "delivered l (presub S) = delivered l S"
  by (simp add: presub_def delivered_crlf_to_nl)

lemma sims_presub:
  "sims (push_stream_string cap S files) (push_stream_string cap (presub S) files)"
proof -
  have "sim (make_file_string cap S False) (make_file_string cap (presub S) False)"
    by (simp add: sim_def make_file_string_def delivered_presub)
  then show ?thesis by (simp add: push_stream_string_def vec_push_def sims_top)
qed


lemma delivered_append_newline:
  assumes "S \<noteq> []" "List.last S \<noteq> NL" "List.last S \<noteq> EOF"
  shows "delivered l (S @ [NL]) = delivered l S"
  using assms
proof (induction l S rule: delivered.induct)
  case (1 l)
  then show ?case by simp
next
  case (2 l c cs)
  show ?case
  proof (cases "c = NUL")
    case True
    then show ?thesis by simp
  next
    case False
    note nz = this
    show ?thesis
    proof (cases "c = CR")
      case True
      note cr = this
      show ?thesis
      proof (cases cs)
        case Nil
        with cr show ?thesis by (simp add: deref_def)
      next
        case (Cons d ds)
        show ?thesis
        proof (cases "d = NL")
          case True
          with Cons "2.prems" have ds: "ds \<noteq> []" "List.last ds \<noteq> NL" "List.last ds \<noteq> EOF"
            by (auto split: if_splits)
          from True Cons have "(if deref cs = NL then tl cs else cs) = ds" by (simp add: deref_def)
          with "2.IH"(1) [OF nz cr] ds have "delivered NL (ds @ [NL]) = delivered NL ds" by simp
          with True Cons cr show ?thesis by (simp add: deref_def)
        next
          case False
          with Cons "2.prems" have cs: "cs \<noteq> []" "List.last cs \<noteq> NL" "List.last cs \<noteq> EOF"
            by (auto split: if_splits)
          from False Cons have "(if deref cs = NL then tl cs else cs) = cs" by (simp add: deref_def)
          with "2.IH"(1) [OF nz cr] cs have "delivered NL (cs @ [NL]) = delivered NL cs" by simp
          with False Cons cr show ?thesis by (simp add: deref_def)
        qed
      qed
    next
      case False
      note ncr = this
      show ?thesis
      proof (cases cs)
        case Nil
        with "2.prems" nz ncr show ?thesis by (simp add: deref_def)
      next
        case (Cons d ds)
        with "2.prems" have "cs \<noteq> []" "List.last cs \<noteq> NL" "List.last cs \<noteq> EOF"
          by (auto split: if_splits)
        with "2.IH"(2) [OF nz ncr] nz ncr show ?thesis by simp
      qed
    qed
  qed
qed

lemma sims_append_newline:
  assumes "S = [] \<or> List.last S \<noteq> NL \<and> List.last S \<noteq> EOF"
  shows "sims (push_stream_string cap S files) (push_stream_string cap (S @ [NL]) files)"
proof -
  have "delivered 0 S = delivered 0 (S @ [NL])"
  proof (cases "S = []")
    case True
    then show ?thesis by (simp add: EOF_def)
  next
    case False
    with assms show ?thesis by (simp add: delivered_append_newline)
  qed
  then have "sim (make_file_string cap S False) (make_file_string cap (S @ [NL]) False)"
    by (simp add: sim_def make_file_string_def)
  then show ?thesis by (simp add: push_stream_string_def vec_push_def sims_top)
qed

subsection \<open>Reading from a ready unit succeeds\<close>

lemma get_ready:
  assumes "buflen f \<le> length (buf f)"
  shows "\<exists>c f'. get (f # rest) = Inr (c, f' # rest) \<and> autopop f' = autopop f \<and>
           buf f' = buf f \<and> buflen f' = buflen f - 1"
proof (cases "buflen f > 0")
  case True
  with assms show ?thesis by (simp add: get_def vec_tail_def advance_def)
next
  case False
  show ?thesis
  proof (cases "file_p f")
    case None
    obtain c f' where r: "readc_string f = (c, f')" by (cases "readc_string f")
    then have "autopop f' = autopop f \<and> buf f' = buf f \<and> buflen f' = buflen f"
      by (auto simp: readc_string_def Let_def split: if_splits)
    with r None False show ?thesis by (simp add: get_def vec_tail_def advance_def)
  next
    case (Some bs)
    obtain c f' where r: "readc_file bs f = (c, f')" by (cases "readc_file bs f")
    then have "autopop f' = autopop f \<and> buf f' = buf f \<and> buflen f' = buflen f"
      by (auto simp: readc_file_def Let_def split: if_splits prod.splits)
    with r Some False show ?thesis by (simp add: get_def vec_tail_def advance_def)
  qed
qed

lemma unreadc_room:
  assumes "buflen f < length (buf f)"
  shows "\<exists>f'. unreadc c (f # rest) = Inr (f' # rest) \<and> autopop f' = autopop f \<and>
           length (buf f') = length (buf f) \<and> buflen f' \<le> buflen f + 1"
  using assms by (simp add: unreadc_def vec_tail_def Let_def)

lemma readc_pass_ready:
  assumes "ready f"
  shows "\<exists>r. readc_pass (f # rest) = Inr r \<and>
           (\<exists>f'. ready f' \<and> (r = Continue (f' # rest) \<or> (\<exists>c. r = Return c (f' # rest))))"
proof -
  from assms have na: "\<not> autopop f" and bl: "buflen f \<le> length (buf f)" and pos: "0 < length (buf f)"
    by (simp_all add: ready_def)
  from get_ready [OF bl, of rest] obtain c f1 where g1: "get (f # rest) = Inr (c, f1 # rest)"
    and f1: "autopop f1 = autopop f" "buf f1 = buf f" "buflen f1 = buflen f - 1" by blast
  from f1 na bl pos have r1: "ready f1" by (simp add: ready_def)
  show ?thesis
  proof (cases "c = EOF \<or> c \<noteq> BACKSLASH")
    case True
    with g1 f1 na r1 show ?thesis
      by (auto simp: readc_pass_def vec_tail_def)
  next
    case False
    from r1 have bl1: "buflen f1 \<le> length (buf f1)" by (simp add: ready_def)
    from get_ready [OF bl1, of rest] obtain c2 f2 where g2: "get (f1 # rest) = Inr (c2, f2 # rest)"
      and f2: "autopop f2 = autopop f1" "buf f2 = buf f1" "buflen f2 = buflen f1 - 1" by blast
    from f2 f1 na bl pos have r2: "ready f2" by (simp add: ready_def)
    show ?thesis
    proof (cases "c2 = NL")
      case True
      with False g1 g2 r2 show ?thesis by (auto simp: readc_pass_def)
    next
      case False
      from f2 f1 bl pos have "buflen f2 < length (buf f2)" by (cases "buf f") auto
      from unreadc_room [OF this, of c2 rest] obtain f3 where u: "unreadc c2 (f2 # rest) = Inr (f3 # rest)"
        and f3: "autopop f3 = autopop f2" "length (buf f3) = length (buf f2)" "buflen f3 \<le> buflen f2 + 1"
        by blast
      from f3 f2 f1 na bl pos have "ready f3" by (cases "buf f") (auto simp: ready_def)
      with False \<open>\<not> (c = EOF \<or> c \<noteq> BACKSLASH)\<close> g1 g2 u show ?thesis
        by (auto simp: readc_pass_def)
    qed
  qed
qed

lemma readc_ready:
  assumes "ready f"
  shows "\<exists>c f'. readc (f # rest) = Inr (c, f' # rest) \<and> ready f'"
  using assms
proof (induction "f # rest" arbitrary: f rule: readc.induct)
  case 1
  from readc_pass_ready [OF "1.prems", of rest] obtain r f' where
    r: "readc_pass (f # rest) = Inr r" and f': "ready f'"
    and rr: "r = Continue (f' # rest) \<or> (\<exists>c. r = Return c (f' # rest))" by blast
  from rr show ?case
  proof
    assume c: "r = Continue (f' # rest)"
    from "1.hyps" [OF r c f'] r c show ?thesis by (simp add: readc.simps [of "f # rest"])
  next
    assume "\<exists>c. r = Return c (f' # rest)"
    with r f' show ?thesis by (auto simp: readc.simps [of "f # rest"])
  qed
qed

lemma read_all_ready:
  assumes "ready f"
  shows "\<exists>cs f'. read_all (f # rest) = Inr (cs, f' # rest)"
  using assms
proof (induction "f # rest" arbitrary: f rule: read_all.induct)
  case 1
  from readc_ready [OF "1.prems", of rest] obtain c f' where
    r: "readc (f # rest) = Inr (c, f' # rest)" and f': "ready f'" by blast
  show ?case
  proof (cases "c = EOF")
    case True
    with r show ?thesis by (simp add: read_all.simps [of "f # rest"])
  next
    case False
    from "1.hyps" [OF r refl False f'] obtain cs f'' where "read_all (f' # rest) = Inr (cs, f'' # rest)"
      by auto
    with r False show ?thesis by (simp add: read_all.simps [of "f # rest"])
  qed
qed

lemma ready_make_file_string: "0 < cap \<Longrightarrow> ready (make_file_string cap S False)"
  by (simp add: ready_def make_file_string_def)

subsection \<open>Pushback as a stack\<close>

lemma pushed_Nil:
  assumes "buflen f \<le> length (buf f)"
  shows "pushed f = [] \<longleftrightarrow> buflen f = 0"
  using assms by (auto simp: pushed_def)

lemma pushed_Cons:
  assumes "pushed f = c # r" "buflen f \<le> length (buf f)"
  shows "0 < buflen f" "buf f ! (buflen f - 1) = c" "pushed (f\<lparr>buflen := buflen f - 1\<rparr>) = r"
proof -
  from assms(1) show pos: "0 < buflen f" by (cases "buflen f") (auto simp: pushed_def)
  then obtain k where k: "buflen f = Suc k" by (cases "buflen f") auto
  with assms(2) have "take (Suc k) (buf f) = take k (buf f) @ [buf f ! k]"
    by (simp add: take_Suc_conv_app_nth)
  with assms(1) k have "buf f ! k = c \<and> rev (take k (buf f)) = r" by (simp add: pushed_def)
  with k show "buf f ! (buflen f - 1) = c" "pushed (f\<lparr>buflen := buflen f - 1\<rparr>) = r"
    by (simp_all add: pushed_def)
qed

lemma pushed_upd [simp]:
  "pushed (f\<lparr>line := l\<rparr>) = pushed f"
  "pushed (f\<lparr>column := k\<rparr>) = pushed f"
  "pushed (f\<lparr>last_c := c\<rparr>) = pushed f"
  "pushed (f\<lparr>p := q\<rparr>) = pushed f"
  "pushed (f\<lparr>file_p := s\<rparr>) = pushed f"
  by (simp_all add: pushed_def)

lemma pushed_advance [simp]: "pushed (advance c f) = pushed f"
  by (simp add: advance_def)

lemma advance_fields [simp]:
  "buflen (advance c f) = buflen f" "buf (advance c f) = buf f" "file_p (advance c f) = file_p f"
  "p (advance c f) = p f" "last_c (advance c f) = last_c f" "name (advance c f) = name f"
  by (simp_all add: advance_def)

lemma get_pushed:
  assumes "pushed f = c # r" "buflen f \<le> length (buf f)"
  shows "get (f # rest) = Inr (c, advance c (f\<lparr>buflen := buflen f - 1\<rparr>) # rest)"
proof -
  note pc = pushed_Cons [OF assms]
  from pc(1) assms(2) have "buflen f - 1 < length (buf f)" by simp
  with pc show ?thesis by (simp add: get_def vec_tail_def)
qed

lemma unreadc_pushed:
  assumes "0 \<le> c" "buflen f < length (buf f)"
  shows "\<exists>f'. unreadc c (f # rest) = Inr (f' # rest) \<and> pushed f' = c # pushed f \<and>
           buflen f' = buflen f + 1 \<and> length (buf f') = length (buf f) \<and>
           file_p f' = file_p f \<and> p f' = p f \<and> last_c f' = last_c f \<and> name f' = name f \<and>
           line f' = (if c = NL then line f - 1 else line f) \<and>
           column f' = (if c = NL then 0 else column f - 1)"
proof -
  have "take (Suc (buflen f)) ((buf f)[buflen f := c]) = take (buflen f) (buf f) @ [c]"
    using assms(2) by (simp add: take_Suc_conv_app_nth)
  with assms show ?thesis
    by (auto simp: unreadc_def vec_tail_def Let_def pushed_def)
qed

lemma get_peek:
  assumes "buflen f \<le> length (buf f)"
  shows "\<exists>f'. get (f # rest) = Inr (peek f, f' # rest) \<and> buflen f' = buflen f - 1 \<and>
           length (buf f') = length (buf f)"
proof (cases "buflen f > 0")
  case True
  with assms show ?thesis by (simp add: get_def vec_tail_def peek_def)
next
  case False
  show ?thesis
  proof (cases "file_p f")
    case None
    obtain c f' where r: "readc_string f = (c, f')" by (cases "readc_string f")
    then have "buf f' = buf f \<and> buflen f' = buflen f"
      by (auto simp: readc_string_def Let_def split: if_splits)
    with r None False show ?thesis by (simp add: get_def vec_tail_def peek_def)
  next
    case (Some bs)
    obtain c f' where r: "readc_file bs f = (c, f')" by (cases "readc_file bs f")
    then have "buf f' = buf f \<and> buflen f' = buflen f"
      by (auto simp: readc_file_def Let_def split: if_splits prod.splits)
    with r Some False show ?thesis by (simp add: get_def vec_tail_def peek_def)
  qed
qed

lemma peek_cong:
  assumes "pushed a = pushed b" "buflen a \<le> length (buf a)" "buflen b \<le> length (buf b)"
    "file_p a = file_p b" "p a = p b" "last_c a = last_c b"
  shows "peek a = peek b"
proof (cases "pushed a")
  case Nil
  with assms(1) have "pushed a = []" "pushed b = []" by simp_all
  with assms(2,3) have "buflen a = 0" "buflen b = 0" by (simp_all add: pushed_Nil)
  moreover have "fst (readc_string a) = fst (readc_string b)"
    using assms(5,6) by (simp add: readc_string_def at_end_def Let_def)
  moreover have "fst (readc_file bs a) = fst (readc_file bs b)" for bs
    using assms(6) by (simp add: readc_file_def at_end_def Let_def split: prod.splits)
  ultimately show ?thesis using assms(4) by (simp add: peek_def split: option.split)
next
  case (Cons c r)
  with assms(1) have b: "pushed b = c # r" by simp
  from pushed_Cons(1,2) [OF Cons assms(2)] pushed_Cons(1,2) [OF b assms(3)]
  show ?thesis by (simp add: peek_def)
qed


lemma unreadc_all_pushed:
  assumes "\<forall>c\<in>set xs. 0 \<le> c" "buflen f + length xs \<le> length (buf f)"
  shows "\<exists>f'. unreadc_all xs (f # rest) = Inr (f' # rest) \<and> pushed f' = rev xs @ pushed f \<and>
           buflen f' = buflen f + length xs \<and> length (buf f') = length (buf f) \<and>
           file_p f' = file_p f \<and> p f' = p f \<and> last_c f' = last_c f \<and> name f' = name f \<and>
           (NL \<notin> set xs \<longrightarrow> line f' = line f \<and> column f' = column f - of_nat (length xs))"
  using assms
proof (induction xs arbitrary: f)
  case Nil
  then show ?case by simp
next
  case (Cons c xs)
  from Cons.prems have c: "0 \<le> c" and room: "buflen f < length (buf f)" by simp_all
  from unreadc_pushed [OF c room, of rest] obtain f1 where
    u: "unreadc c (f # rest) = Inr (f1 # rest)" and
    f1: "pushed f1 = c # pushed f" "buflen f1 = buflen f + 1" "length (buf f1) = length (buf f)"
      "file_p f1 = file_p f" "p f1 = p f" "last_c f1 = last_c f" "name f1 = name f"
      "line f1 = (if c = NL then line f - 1 else line f)"
      "column f1 = (if c = NL then 0 else column f - 1)"
    by blast
  from Cons.prems f1 have "\<forall>c\<in>set xs. 0 \<le> c" "buflen f1 + length xs \<le> length (buf f1)"
    by simp_all
  from Cons.IH [OF this] obtain f' where
    "unreadc_all xs (f1 # rest) = Inr (f' # rest)" "pushed f' = rev xs @ pushed f1"
    "buflen f' = buflen f1 + length xs" "length (buf f') = length (buf f1)"
    "file_p f' = file_p f1" "p f' = p f1" "last_c f' = last_c f1" "name f' = name f1"
    "NL \<notin> set xs \<longrightarrow> line f' = line f1 \<and> column f' = column f1 - of_nat (length xs)"
    by blast
  with u f1 show ?case by (intro exI [of _ f']) auto
qed

subsection \<open>Reading back what was unread\<close>

lemma splice_free_tl: "splice_free (c # cs) \<Longrightarrow> splice_free cs"
  by (cases cs) simp_all

lemma replay:
  assumes "pushed h = cs @ pushed g" "buflen h \<le> length (buf h)" "buflen g \<le> length (buf g)"
    "file_p h = file_p g" "p h = p g" "last_c h = last_c g"
    "\<forall>c\<in>set cs. 0 \<le> c" "splice_free cs"
    "cs \<noteq> [] \<and> List.last cs = BACKSLASH \<longrightarrow> peek g \<noteq> NL"
  shows "\<exists>h'. readc_n (length cs) (h # rest) = Inr (cs, h' # rest)"
  using assms
proof (induction cs arbitrary: h)
  case Nil
  then show ?case by simp
next
  case (Cons c cs)
  let ?h1 = "advance c (h\<lparr>buflen := buflen h - 1\<rparr>)"
  from Cons.prems(1) have ph: "pushed h = c # (cs @ pushed g)" by simp
  note pc = pushed_Cons [OF ph Cons.prems(2)]
  have g1: "get (h # rest) = Inr (c, ?h1 # rest)"
    using ph Cons.prems(2) by (rule get_pushed)
  have p1: "pushed ?h1 = cs @ pushed g" using pc(3) by simp
  have b1: "buflen ?h1 \<le> length (buf ?h1)" using Cons.prems(2) by simp
  have o1: "file_p ?h1 = file_p g" "p ?h1 = p g" "last_c ?h1 = last_c g"
    using Cons.prems(4,5,6) by simp_all
  have c0: "0 \<le> c" and cs0: "\<forall>c\<in>set cs. 0 \<le> c" using Cons.prems(7) by simp_all
  have sf: "splice_free cs" using Cons.prems(8) by (rule splice_free_tl)
  have lst: "cs \<noteq> [] \<and> List.last cs = BACKSLASH \<longrightarrow> peek g \<noteq> NL"
    using Cons.prems(9) by auto
  from c0 have ne: "c \<noteq> EOF" by (auto simp: EOF_def)
  have "(\<exists>h2. readc (h # rest) = Inr (c, h2 # rest) \<and> pushed h2 = cs @ pushed g \<and>
          buflen h2 \<le> length (buf h2) \<and> file_p h2 = file_p g \<and> p h2 = p g \<and>
          last_c h2 = last_c g) \<or> cs = [] \<and> (\<exists>h2. readc (h # rest) = Inr (c, h2 # rest))"
  proof (cases "c = BACKSLASH")
    case False
    with g1 ne have "readc_pass (h # rest) = Inr (Return c (?h1 # rest))"
      by (simp add: readc_pass_def)
    then have "readc (h # rest) = Inr (c, ?h1 # rest)" by (rule readc_return)
    with p1 b1 o1 show ?thesis by blast
  next
    case True
    note bs = this
    show ?thesis
    proof (cases cs)
      case (Cons d ds)
      with p1 have p1': "pushed ?h1 = d # (ds @ pushed g)" by simp
      let ?h2 = "advance d (?h1\<lparr>buflen := buflen ?h1 - 1\<rparr>)"
      note pc1 = pushed_Cons [OF p1' b1]
      have g2: "get (?h1 # rest) = Inr (d, ?h2 # rest)" using p1' b1 by (rule get_pushed)
      from Cons bs Cons.prems(8) have dn: "d \<noteq> NL" by auto
      from Cons cs0 have d0: "0 \<le> d" by simp
      have room: "buflen ?h2 < length (buf ?h2)" using pc1(1) b1 by simp
      from unreadc_pushed [OF d0 room, of rest] obtain h3 where
        u: "unreadc d (?h2 # rest) = Inr (h3 # rest)" and
        h3: "pushed h3 = d # pushed ?h2" "buflen h3 = buflen ?h2 + 1"
          "length (buf h3) = length (buf ?h2)"
          "file_p h3 = file_p ?h2" "p h3 = p ?h2" "last_c h3 = last_c ?h2"
        by blast
      from g1 g2 u bs dn have "readc_pass (h # rest) = Inr (Return c (h3 # rest))"
        by (simp add: readc_pass_def EOF_def)
      then have r: "readc (h # rest) = Inr (c, h3 # rest)" by (rule readc_return)
      have "pushed ?h2 = ds @ pushed g" using pc1(3) by simp
      with h3 Cons have "pushed h3 = cs @ pushed g" by simp
      moreover have "buflen h3 \<le> length (buf h3)" using h3 room by simp
      moreover have "file_p h3 = file_p g" "p h3 = p g" "last_c h3 = last_c g"
        using h3 o1 by simp_all
      ultimately show ?thesis using r by blast
    next
      case Nil
      with bs Cons.prems(9) have pg: "peek g \<noteq> NL" by simp
      from Nil p1 have "pushed ?h1 = pushed g" by simp
      from peek_cong [OF this b1 Cons.prems(3) o1] pg have pk: "peek ?h1 \<noteq> NL" by simp
      from get_peek [OF b1, of rest] obtain h2 where
        g2: "get (?h1 # rest) = Inr (peek ?h1, h2 # rest)" and
        h2: "buflen h2 = buflen ?h1 - 1" "length (buf h2) = length (buf ?h1)" by blast
      have "\<exists>h3. unreadc (peek ?h1) (h2 # rest) = Inr (h3 # rest)"
      proof (cases "peek ?h1 < 0")
        case True
        then show ?thesis by (simp add: unreadc_def)
      next
        case False
        from h2 pc(1) Cons.prems(2) have "buflen h2 < length (buf h2)" by simp
        from unreadc_room [OF this, of "peek ?h1" rest] show ?thesis by blast
      qed
      then obtain h3 where u: "unreadc (peek ?h1) (h2 # rest) = Inr (h3 # rest)" by blast
      from g1 g2 u bs pk have "readc_pass (h # rest) = Inr (Return c (h3 # rest))"
        by (simp add: readc_pass_def EOF_def)
      then have "readc (h # rest) = Inr (c, h3 # rest)" by (rule readc_return)
      with Nil show ?thesis by blast
    qed
  qed
  then show ?case
  proof
    assume "\<exists>h2. readc (h # rest) = Inr (c, h2 # rest) \<and> pushed h2 = cs @ pushed g \<and>
          buflen h2 \<le> length (buf h2) \<and> file_p h2 = file_p g \<and> p h2 = p g \<and>
          last_c h2 = last_c g"
    then obtain h2 where r: "readc (h # rest) = Inr (c, h2 # rest)" and
      h2: "pushed h2 = cs @ pushed g" "buflen h2 \<le> length (buf h2)" "file_p h2 = file_p g"
        "p h2 = p g" "last_c h2 = last_c g" by blast
    from Cons.IH [OF h2(1,2) Cons.prems(3) h2(3,4,5) cs0 sf lst] obtain h' where
      "readc_n (length cs) (h2 # rest) = Inr (cs, h' # rest)" by blast
    with r show ?thesis by simp
  next
    assume "cs = [] \<and> (\<exists>h2. readc (h # rest) = Inr (c, h2 # rest))"
    then show ?thesis by auto
  qed
qed


subsection \<open>The unit on top keeps its name\<close>

lemma get_name:
  assumes "get (f # rest) = Inr (c, fs)"
  shows "\<exists>f'. fs = f' # rest \<and> name f' = name f"
proof (cases "buflen f > 0")
  case True
  with assms show ?thesis
    by (auto simp: get_def vec_tail_def advance_def split: if_splits)
next
  case False
  show ?thesis
  proof (cases "file_p f")
    case None
    obtain c' f' where r: "readc_string f = (c', f')" by (cases "readc_string f")
    then have "name f' = name f"
      by (auto simp: readc_string_def Let_def split: if_splits)
    with r None False assms show ?thesis
      by (auto simp: get_def vec_tail_def advance_def)
  next
    case (Some bs)
    obtain c' f' where r: "readc_file bs f = (c', f')" by (cases "readc_file bs f")
    then have "name f' = name f"
      by (auto simp: readc_file_def Let_def split: if_splits prod.splits)
    with r Some False assms show ?thesis
      by (auto simp: get_def vec_tail_def advance_def)
  qed
qed

lemma unreadc_name:
  assumes "unreadc c (f # rest) = Inr fs"
  shows "\<exists>f'. fs = f' # rest \<and> name f' = name f"
  using assms by (auto simp: unreadc_def vec_tail_def Let_def split: if_splits)

lemma readc_pass_name:
  assumes "readc_pass (f # rest) = Inr r"
  shows "(r = Continue rest) \<or>
         (\<exists>f'. r = Continue (f' # rest) \<and> name f' = name f) \<or>
         (\<exists>f' c. r = Return c (f' # rest) \<and> name f' = name f)"
proof -
  from assms obtain c1 fs1 where g1: "get (f # rest) = Inr (c1, fs1)"
    by (auto simp: readc_pass_def split: sum.splits)
  from get_name [OF g1] obtain f1 where fs1: "fs1 = f1 # rest" and n1: "name f1 = name f"
    by blast
  show ?thesis
  proof (cases "c1 = EOF")
    case True
    show ?thesis
    proof (cases "autopop f1")
      case True
      with assms g1 fs1 \<open>c1 = EOF\<close> have "r = Continue rest"
        by (simp add: readc_pass_def vec_tail_def vec_pop_def)
      then show ?thesis by simp
    next
      case False
      with assms g1 fs1 \<open>c1 = EOF\<close> have "r = Return c1 (f1 # rest)"
        by (simp add: readc_pass_def vec_tail_def)
      with n1 show ?thesis by simp
    qed
  next
    case False
    note ne = this
    show ?thesis
    proof (cases "c1 = BACKSLASH")
      case False
      with assms g1 ne fs1 have "r = Return c1 (f1 # rest)"
        by (simp add: readc_pass_def)
      with n1 show ?thesis by simp
    next
      case True
      with assms g1 ne obtain c2 fs2 where g2: "get fs1 = Inr (c2, fs2)"
        by (auto simp: readc_pass_def split: sum.splits)
      from get_name [of f1 rest c2 fs2] g2 fs1 obtain f2 where fs2: "fs2 = f2 # rest"
        and n2: "name f2 = name f1"
        by auto
      show ?thesis
      proof (cases "c2 = NL")
        case True
        with assms g1 g2 ne \<open>c1 = BACKSLASH\<close> fs2 n1 n2 show ?thesis
          by (auto simp: readc_pass_def)
      next
        case False
        with assms g1 g2 ne \<open>c1 = BACKSLASH\<close> obtain fs3 where u: "unreadc c2 fs2 = Inr fs3"
          and r: "r = Return c1 fs3"
          by (auto simp: readc_pass_def split: sum.splits)
        from unreadc_name [of c2 f2 rest fs3] u fs2 obtain f3 where
          "fs3 = f3 # rest" "name f3 = name f2" by auto
        with r n1 n2 show ?thesis by simp
      qed
    qed
  qed
qed

lemma readc_depth: "readc files = Inr (c, fs) \<Longrightarrow> length fs \<le> length files"
proof (induction files rule: readc.induct)
  case (1 files)
  show ?case
  proof (cases files)
    case Nil
    with "1.prems" show ?thesis
      by (simp add: readc.simps [of "[]"] readc_pass_def get_def vec_tail_def)
  next
    case (Cons f rest)
    show ?thesis
    proof (cases "readc_pass files")
      case (Inl e)
      with "1.prems" show ?thesis by (simp add: readc.simps [of files])
    next
      case (Inr r)
      show ?thesis
      proof (cases r)
        case (Continue fs1)
        with Inr "1.prems" have rc: "readc fs1 = Inr (c, fs)" by (simp add: readc.simps [of files])
        from readc_pass_name [of f rest r] Inr Cons Continue have "length fs1 \<le> length files"
          by auto
        with "1.IH" [OF Inr Continue rc] show ?thesis by simp
      next
        case (Return c1 fs1)
        with Inr "1.prems" have "fs1 = fs" by (simp add: readc.simps [of files])
        with readc_pass_name [of f rest r] Inr Cons Return show ?thesis by auto
      qed
    qed
  qed
qed

lemma readc_name:
  assumes "readc (f # rest) = Inr (c, f1 # rest)"
  shows "name f1 = name f"
  using assms
proof (induction "f # rest" arbitrary: f rule: readc.induct)
  case 1
  show ?case
  proof (cases "readc_pass (f # rest)")
    case (Inl e)
    with "1.prems" show ?thesis by (simp add: readc.simps [of "f # rest"])
  next
    case (Inr r)
    from readc_pass_name [OF Inr] consider
      "r = Continue rest" |
      f' where "r = Continue (f' # rest)" "name f' = name f" |
      f' c' where "r = Return c' (f' # rest)" "name f' = name f"
      by blast
    then show ?thesis
    proof cases
      case 1
      with Inr "1.prems" have "readc rest = Inr (c, f1 # rest)"
        by (simp add: readc.simps [of "f # rest"])
      from readc_depth [OF this] show ?thesis by simp
    next
      case 2
      with Inr "1.prems" have "readc (f' # rest) = Inr (c, f1 # rest)"
        by (simp add: readc.simps [of "f # rest"])
      from "1.hyps" [OF Inr 2(1) this] 2 show ?thesis by simp
    next
      case 3
      with Inr "1.prems" have "c' = c" "f' = f1" by (simp_all add: readc.simps [of "f # rest"])
      with 3 show ?thesis by simp
    qed
  qed
qed

lemma readc_top:
  assumes "readc (f # rest) = Inr (c, fs)"
  shows "length fs \<le> length rest \<or> (\<exists>f'. fs = f' # rest)"
  using assms
proof (induction "f # rest" arbitrary: f rule: readc.induct)
  case 1
  show ?case
  proof (cases "readc_pass (f # rest)")
    case (Inl e)
    with "1.prems" show ?thesis by (simp add: readc.simps [of "f # rest"])
  next
    case (Inr r)
    from readc_pass_name [OF Inr] consider
      "r = Continue rest" | f' where "r = Continue (f' # rest)" |
      f' c' where "r = Return c' (f' # rest)"
      by blast
    then show ?thesis
    proof cases
      case 1
      with Inr "1.prems" have "readc rest = Inr (c, fs)"
        by (simp add: readc.simps [of "f # rest"])
      from readc_depth [OF this] show ?thesis by simp
    next
      case 2
      with Inr "1.prems" have "readc (f' # rest) = Inr (c, fs)"
        by (simp add: readc.simps [of "f # rest"])
      from "1.hyps" [OF Inr 2 this] show ?thesis .
    next
      case 3
      with Inr "1.prems" show ?thesis by (auto simp: readc.simps [of "f # rest"])
    qed
  qed
qed

lemma readc_n_depth: "readc_n n files = Inr (cs, fs) \<Longrightarrow> length fs \<le> length files"
proof (induction n arbitrary: files cs)
  case 0
  then show ?case by simp
next
  case (Suc n)
  from Suc.prems obtain c fs1 cs1 where r: "readc files = Inr (c, fs1)"
    and rn: "readc_n n fs1 = Inr (cs1, fs)"
    by (auto split: sum.splits)
  from readc_depth [OF r] Suc.IH [OF rn] show ?case by simp
qed

lemma readc_n_name:
  assumes "readc_n n (f # rest) = Inr (cs, f1 # rest)"
  shows "name f1 = name f \<and> length cs = n"
  using assms
proof (induction n arbitrary: f cs)
  case 0
  then show ?case by simp
next
  case (Suc n)
  from Suc.prems obtain c fs1 cs1 where r: "readc (f # rest) = Inr (c, fs1)"
    and rn: "readc_n n fs1 = Inr (cs1, f1 # rest)" and cs: "cs = c # cs1"
    by (auto split: sum.splits)
  from readc_n_depth [OF rn] readc_top [OF r] obtain f' where fs1: "fs1 = f' # rest" by auto
  from readc_name [of f rest c f'] r fs1 have "name f' = name f" by simp
  moreover from Suc.IH [of f' cs1] rn fs1 have "name f1 = name f'" "length cs1 = n" by simp_all
  ultimately show ?case using cs by simp
qed

section \<open>Properties\<close>

subsection \<open>Line splicing\<close>

text \<open>
  C5. Reading the string of \<^verbatim>\<open>a\<close>, backslash, newline, backslash, newline, \<^verbatim>\<open>b\<close>
  and newline through a string unit
  gives \<^verbatim>\<open>a\<close>, \<^verbatim>\<open>b\<close>, newline and then \<^verbatim>\<open>EOF\<close>: both backslash-newline pairs
  are removed. This holds for every size of the pushback array and on top of every
  stack.
\<close>

theorem chained_splice:
  "map_sum id fst (readc_n 4 (push_stream_string cap [97, BACKSLASH, NL, BACKSLASH, NL, 98, NL] files))
     = Inr [97, 98, NL, EOF]"
  by (simp add: push_stream_string_def make_file_string_def vec_push_def readc.simps
      readc_pass_def get_def vec_tail_def readc_string_def deref_def advance_def at_end_def
      EOF_def numeral_eq_Suc Let_def)

subsection \<open>Pushback\<close>

text \<open>
  C6. \<^verbatim>\<open>unreadc\<close> of a non-negative character on a top unit whose pushback count is
  below the number of elements of \<^verbatim>\<open>buf\<close> succeeds, stores the character at the
  index of the old count, which is inside the array, and raises the count by one;
  with a full array it is a failed assertion.
\<close>

theorem unreadc_within_capacity:
  assumes "0 \<le> c"
  shows "(buflen f < length (buf f) \<longrightarrow>
            (\<exists>f'. unreadc c (f # rest) = Inr (f' # rest) \<and>
                  buflen f' = buflen f + 1 \<and>
                  buf f' = (buf f)[buflen f := c] \<and>
                  buf f' ! buflen f = c \<and>
                  length (buf f') = length (buf f) \<and>
                  buflen f' \<le> length (buf f'))) \<and>
         (\<not> buflen f < length (buf f) \<longrightarrow> unreadc c (f # rest) = Inl Assertion_Failed)"
  using assms by (simp add: unreadc_def vec_tail_def Let_def)

text \<open>A fresh unit with two pushback slots takes a character; one with both in use fails.\<close>

theorem unreadc_within_capacity_witness:
  "(\<exists>f'. unreadc 97 [make_file_string 2 [] False] = Inr [f'] \<and> buflen f' = 1 \<and>
          buf f' = [97, 0] \<and> buf f' ! 0 = 97 \<and> length (buf f') = 2) \<and>
   unreadc 97 [(make_file_string 2 [] False)\<lparr>buflen := 2\<rparr>] = Inl Assertion_Failed"
proof -
  have c: "(0::int) \<le> 97" by simp
  have a: "buflen (make_file_string 2 [] False) < length (buf (make_file_string 2 [] False))"
    by (simp add: make_file_string_def)
  have b: "\<not> buflen ((make_file_string 2 [] False)\<lparr>buflen := 2\<rparr>)
             < length (buf ((make_file_string 2 [] False)\<lparr>buflen := 2\<rparr>))"
    by (simp add: make_file_string_def)
  from unreadc_within_capacity [OF c, of "make_file_string 2 [] False" "[]"] a
  have "\<exists>f'. unreadc 97 [make_file_string 2 [] False] = Inr [f'] \<and> buflen f' = 1 \<and>
          buf f' = [97, 0] \<and> buf f' ! 0 = 97 \<and> length (buf f') = 2"
    by (auto simp: make_file_string_def numeral_eq_Suc)
  moreover from unreadc_within_capacity [OF c, of "(make_file_string 2 [] False)\<lparr>buflen := 2\<rparr>" "[]"] b
  have "unreadc 97 [(make_file_string 2 [] False)\<lparr>buflen := 2\<rparr>] = Inl Assertion_Failed"
    by blast
  ultimately show ?thesis by blast
qed

text \<open>
  C7. \<^verbatim>\<open>unreadc\<close> of a negative value (of \<^verbatim>\<open>EOF\<close> in particular) succeeds and leaves
  the whole stack as it was, also when the stack is empty.
\<close>

theorem unreadc_negative_noop:
  "c < 0 \<Longrightarrow> unreadc c files = Inr files"
  by (simp add: unreadc_def)

text \<open>\<^verbatim>\<open>EOF\<close> is unread on the empty stack and on a string unit.\<close>

theorem unreadc_negative_noop_witness:
  "EOF < 0 \<and> unreadc EOF [] = Inr [] \<and>
   unreadc EOF (push_stream_string 2 [97] []) = Inr (push_stream_string 2 [97] [])"
proof -
  have e: "EOF < 0" by (simp add: EOF_def)
  from unreadc_negative_noop [OF e, of "[]"]
    unreadc_negative_noop [OF e, of "push_stream_string 2 [97] []"] e
  show ?thesis by simp
qed

subsection \<open>Position\<close>

text \<open>
  C8, as the specification states it, fails on a stack with a string unit on top:
  such a unit has no name (\<^verbatim>\<open>make_file_string\<close> sets none and nothing else in
  \<^verbatim>\<open>file.c\<close> does), and \<^verbatim>\<open>input_position\<close> is \<^verbatim>\<open>(null):1:0\<close> for the unit that
  \<^verbatim>\<open>push_stream_string\<close> has just pushed.
\<close>

theorem input_position_counterexample:
  "name (make_file_string 3 [120] False) = None \<and>
   input_position (push_stream_string 3 [120] []) = Inr ''(null):1:0''"
  by code_simp

text \<open>
  C8, amended. On the empty stack \<^verbatim>\<open>input_position\<close> is the string \<^verbatim>\<open>(unknown)\<close>, and
  does not fail. On any other stack it is the name of the top unit, or \<^verbatim>\<open>(null)\<close>
  when the unit has no name, then the line and the column as signed decimal
  numbers, with colons between the three.
\<close>

theorem input_position_sentinel:
  "input_position [] = Inr ''(unknown)'' \<and>
   input_position (f # rest)
     = Inr ((case name f of None \<Rightarrow> ''(null)'' | Some nm \<Rightarrow> nm)
            @ '':'' @ decimal (sint (line f)) @ '':'' @ decimal (sint (column f)))"
  by (simp add: input_position_def vec_len_def vec_tail_def format_position_def format_s_def)

text \<open>
  A file unit that was just pushed is at line 1, column 0; so is a string unit,
  with \<^verbatim>\<open>(null)\<close> for its name.
\<close>

theorem input_position_sentinel_witness:
  "input_position [] = Inr ''(unknown)'' \<and>
   input_position (push_stream 3 [97] ''t.c'' []) = Inr ''t.c:1:0'' \<and>
   input_position (push_stream_string 3 [97] []) = Inr ''(null):1:0''"
proof -
  have d: "decimal 1 = ''1''" "decimal 0 = ''0''"
    by (simp_all add: decimal_def digits.simps digit_chars)
  from input_position_sentinel [of "make_file 3 [97] ''t.c'' False" "[]"]
    input_position_sentinel [of "make_file_string 3 [97] False" "[]"]
  show ?thesis
    by (simp add: push_stream_def push_stream_string_def vec_push_def make_file_def
        make_file_string_def d)
qed

subsection \<open>End of input\<close>

text \<open>
  C9. A read that delivers \<^verbatim>\<open>EOF\<close> advances the column: on an exhausted top unit
  that is not popped automatically, \<open>k + 1\<close> calls of \<^verbatim>\<open>readc\<close> all return
  \<^verbatim>\<open>EOF\<close>, each of them steps the column by one (as a C \<^verbatim>\<open>int\<close>: the step from
  2147483647 leads to -2147483648), and the position string after call \<open>k + 1\<close>
  differs from the one before that call, which for \<open>k = 0\<close> is the one of the start.
\<close>

theorem eof_advances_column:
  assumes "exhausted f" "\<not> autopop f"
  shows "readc_n (Suc k) (f # rest)
           = Inr (replicate (Suc k) EOF,
                  f\<lparr>last_c := EOF, column := column f + 1 + of_nat k\<rparr> # rest) \<and>
         readc_n k (f # rest)
           = Inr (replicate k EOF,
                  (if k = 0 then f else f\<lparr>last_c := EOF, column := column f + of_nat k\<rparr>) # rest) \<and>
         input_position (f\<lparr>last_c := EOF, column := column f + 1 + of_nat k\<rparr> # rest)
           \<noteq> input_position
               ((if k = 0 then f else f\<lparr>last_c := EOF, column := column f + of_nat k\<rparr>) # rest)"
proof (intro conjI)
  show "readc_n (Suc k) (f # rest)
           = Inr (replicate (Suc k) EOF,
                  f\<lparr>last_c := EOF, column := column f + 1 + of_nat k\<rparr> # rest)"
    using assms by (rule readc_n_exhausted)
next
  show "readc_n k (f # rest)
           = Inr (replicate k EOF,
                  (if k = 0 then f else f\<lparr>last_c := EOF, column := column f + of_nat k\<rparr>) # rest)"
  proof (cases k)
    case 0
    then show ?thesis by simp
  next
    case (Suc j)
    with readc_n_exhausted [OF assms, of j rest] show ?thesis by (simp add: ac_simps)
  qed
next
  show "input_position (f\<lparr>last_c := EOF, column := column f + 1 + of_nat k\<rparr> # rest)
           \<noteq> input_position
               ((if k = 0 then f else f\<lparr>last_c := EOF, column := column f + of_nat k\<rparr>) # rest)"
  proof
    assume "input_position (f\<lparr>last_c := EOF, column := column f + 1 + of_nat k\<rparr> # rest)
              = input_position
                  ((if k = 0 then f else f\<lparr>last_c := EOF, column := column f + of_nat k\<rparr>) # rest)"
    then have "format_position (name f) (line f) (column f + 1 + of_nat k)
                 = format_position (name f) (line f) (column f + of_nat k)"
      by (simp add: input_position_def vec_len_def vec_tail_def split: if_splits)
    then have "column f + 1 + of_nat k = column f + of_nat k" by (rule format_position_column)
    then show False by simp
  qed
qed

text \<open>
  A file holding one newline, after that newline is read: two more reads return
  \<^verbatim>\<open>EOF\<close> and move the position from column 0 to column 1 and to column 2. With
  the column at 2147483647, one more read moves it to -2147483648.
\<close>

theorem eof_advances_column_witness:
  "readc (push_stream 2 [NL] ''t.c'' [])
     = Inr (NL, [\<lparr>file_p = Some [], p = [], name = Some ''t.c'', line = 2, column = 0,
                   last_c = NL, buf = [0, 0], buflen = 0, autopop = False\<rparr>]) \<and>
   readc_n 2 [\<lparr>file_p = Some [], p = [], name = Some ''t.c'', line = 2, column = 0,
                last_c = NL, buf = [0, 0], buflen = 0, autopop = False\<rparr>]
     = Inr ([EOF, EOF],
            [\<lparr>file_p = Some [], p = [], name = Some ''t.c'', line = 2, column = 2,
               last_c = EOF, buf = [0, 0], buflen = 0, autopop = False\<rparr>]) \<and>
   input_position [\<lparr>file_p = Some [], p = [], name = Some ''t.c'', line = 2, column = 0,
                last_c = NL, buf = [0, 0], buflen = 0, autopop = False\<rparr>] = Inr ''t.c:2:0'' \<and>
   input_position [\<lparr>file_p = Some [], p = [], name = Some ''t.c'', line = 2, column = 1,
               last_c = EOF, buf = [0, 0], buflen = 0, autopop = False\<rparr>] = Inr ''t.c:2:1'' \<and>
   input_position [\<lparr>file_p = Some [], p = [], name = Some ''t.c'', line = 2, column = 2,
               last_c = EOF, buf = [0, 0], buflen = 0, autopop = False\<rparr>] = Inr ''t.c:2:2'' \<and>
   map_sum id (\<lambda>(c, fs). (c, input_position fs))
     (readc [\<lparr>file_p = Some [], p = [], name = Some ''t.c'', line = 2, column = 2147483647,
               last_c = EOF, buf = [0, 0], buflen = 0, autopop = False\<rparr>])
     = Inr (EOF, Inr ''t.c:2:-2147483648'')"
proof -
  let ?f = "\<lparr>file_p = Some [], p = [], name = Some ''t.c'', line = 2, column = 0,
              last_c = NL, buf = [0, 0], buflen = 0, autopop = False\<rparr>"
  let ?g = "\<lparr>file_p = Some [], p = [], name = Some ''t.c'', line = 2, column = 2147483647,
              last_c = EOF, buf = [0, 0], buflen = 0, autopop = False\<rparr>"
  have e: "exhausted ?f" "exhausted ?g" by (simp_all add: exhausted_def)
  have a: "\<not> autopop ?f" "\<not> autopop ?g" by simp_all
  have r: "readc (push_stream 2 [NL] ''t.c'' []) = Inr (NL, [?f])"
    by (simp add: push_stream_def make_file_def vec_push_def readc.simps readc_pass_def get_def
        vec_tail_def readc_file_def getc_def advance_def EOF_def numeral_eq_Suc Let_def)
  have q: "input_position [?f] = Inr ''t.c:2:0''"
    "input_position [?f\<lparr>last_c := EOF, column := 1\<rparr>] = Inr ''t.c:2:1''"
    "input_position [?f\<lparr>last_c := EOF, column := 2\<rparr>] = Inr ''t.c:2:2''"
    "input_position [?g\<lparr>last_c := EOF, column := 2147483647 + 1\<rparr>] = Inr ''t.c:2:-2147483648''"
    by (simp_all add: position_eval)
  from eof_advances_column [OF e(1) a(1), of 1 "[]"]
  have 1: "readc_n 2 [?f] = Inr ([EOF, EOF], [?f\<lparr>last_c := EOF, column := 2\<rparr>])"
    by (simp add: numeral_eq_Suc)
  from eof_advances_column [OF e(2) a(2), of 0 "[]"]
  have "readc [?g] = Inr (EOF, [?g\<lparr>last_c := EOF, column := 2147483647 + 1\<rparr>])"
    by (auto split: sum.splits)
  with q(4) have 2: "map_sum id (\<lambda>(c, fs). (c, input_position fs)) (readc [?g])
      = Inr (EOF, Inr ''t.c:2:-2147483648'')"
    by simp
  from r 1 2 q(1,2,3) show ?thesis by simp
qed

subsection \<open>Included units\<close>




subsection \<open>A backslash at the end of input\<close>



subsection \<open>Newlines\<close>

text \<open>
  C2. Reading a string through a string unit gives the same characters as reading
  the string in which every carriage return with a newline after it, and then every
  other carriage return, was replaced by a newline: the same characters up to the
  first \<^verbatim>\<open>EOF\<close>, and the same results of any number \<open>n\<close> of calls of \<^verbatim>\<open>readc\<close>.
  When the pushback array has an element, reading the string to the first
  \<^verbatim>\<open>EOF\<close> succeeds.
\<close>

theorem newline_presubstitution:
  "map_sum id fst (read_all (push_stream_string cap S files))
     = map_sum id fst (read_all (push_stream_string cap (presub S) files)) \<and>
   map_sum id fst (readc_n n (push_stream_string cap S files))
     = map_sum id fst (readc_n n (push_stream_string cap (presub S) files)) \<and>
   (0 < cap \<longrightarrow> (\<exists>cs fs. read_all (push_stream_string cap S files) = Inr (cs, fs)))"
proof (intro conjI impI)
  show "map_sum id fst (read_all (push_stream_string cap S files))
     = map_sum id fst (read_all (push_stream_string cap (presub S) files))"
    by (rule rel_result_chars [OF sims_read_all [OF sims_presub]])
  show "map_sum id fst (readc_n n (push_stream_string cap S files))
     = map_sum id fst (readc_n n (push_stream_string cap (presub S) files))"
    by (rule rel_result_chars [OF sims_readc_n [OF sims_presub]])
  assume "0 < cap"
  then have "ready (make_file_string cap S False)" by (rule ready_make_file_string)
  from read_all_ready [OF this, of files]
  show "\<exists>cs fs. read_all (push_stream_string cap S files) = Inr (cs, fs)"
    by (auto simp: push_stream_string_def vec_push_def)
qed

text \<open>
  The string \<^verbatim>\<open>a CR LF b CR c\<close> and its substitute \<^verbatim>\<open>a LF b LF c\<close> both read as
  \<^verbatim>\<open>a LF b LF c LF\<close>.
\<close>

theorem newline_presubstitution_witness:
  "presub [97, CR, NL, 98, CR, 99] = [97, NL, 98, NL, 99] \<and>
   map_sum id fst (read_all (push_stream_string 2 [97, CR, NL, 98, CR, 99] []))
     = Inr [97, NL, 98, NL, 99, NL] \<and>
   map_sum id fst (read_all (push_stream_string 2 [97, NL, 98, NL, 99] []))
     = Inr [97, NL, 98, NL, 99, NL]"
proof -
  have ps: "presub [97, CR, NL, 98, CR, 99] = [97, NL, 98, NL, 99]"
    by (simp add: presub_def)
  have "map_sum id fst (read_all (push_stream_string 2 [97, CR, NL, 98, CR, 99] []))
     = Inr [97, NL, 98, NL, 99, NL]"
    by (simp add: push_stream_string_def make_file_string_def vec_push_def read_all.simps
      readc.simps readc_pass_def get_def vec_tail_def readc_string_def deref_def advance_def
      at_end_def EOF_def numeral_eq_Suc Let_def)
  with newline_presubstitution [of 2 "[97, CR, NL, 98, CR, 99]" "[]" 0] ps
  show ?thesis by simp
qed


text \<open>
  C3. Reading a string that does not end in a newline should give the characters of
  the string with a newline appended. It does not for the string of a backslash and
  the character whose value is \<open>- 1\<close> (the byte \<^verbatim>\<open>0xFF\<close> where \<^verbatim>\<open>char\<close> is signed):
  \<^verbatim>\<open>readc_string\<close> returns that character as \<^verbatim>\<open>EOF\<close> and records it in \<^verbatim>\<open>last\<close>,
  \<^verbatim>\<open>unreadc\<close> drops it, and at the end of the string no newline is supplied; with
  a newline appended, the newline is read. A file unit, which reads the same bytes
  through \<^verbatim>\<open>getc\<close>, supplies the newline.
\<close>

theorem eof_regularization_signed_char:
  "map_sum id fst (read_all (push_stream_string cap [BACKSLASH, - 1] files))
     = Inr [BACKSLASH] \<and>
   map_sum id fst (read_all (push_stream_string cap ([BACKSLASH, - 1] @ [NL]) files))
     = Inr [BACKSLASH, NL] \<and>
   map_sum id fst (read_all (push_stream (Suc cap) [BACKSLASH, 255] nm files))
     = Inr [BACKSLASH, 255, NL]"
  by (simp add: push_stream_string_def make_file_string_def push_stream_def make_file_def
      vec_push_def read_all.simps readc.simps readc_pass_def get_def vec_tail_def
      readc_string_def readc_file_def getc_def unreadc_def deref_def advance_def at_end_def
      EOF_def numeral_eq_Suc Let_def)

text \<open>
  For every other string the claim holds: when the string is empty, or its last
  character is neither a newline nor the value of \<^verbatim>\<open>EOF\<close>, the string and the string
  with a newline appended read the same.
\<close>

lemma eof_regularization_otherwise:
  assumes "S = [] \<or> List.last S \<noteq> NL \<and> List.last S \<noteq> EOF"
  shows "map_sum id fst (read_all (push_stream_string cap S files))
           = map_sum id fst (read_all (push_stream_string cap (S @ [NL]) files))"
  by (rule rel_result_chars [OF sims_read_all [OF sims_append_newline [OF assms]]])

subsection \<open>The round trip of reading and unreading\<close>

text \<open>
  C1, as the specification states it, fails: reading \<open>n\<close> characters, unreading them
  in reverse order and reading again does not always give the position of the
  start, nor the same characters, nor does it always succeed.
  \<^item> A file \<^verbatim>\<open>a newline\<close>, two characters: unreading the newline sets the column to 0
    and unreading \<^verbatim>\<open>a\<close> then makes it \<open>- 1\<close>; the position was \<^verbatim>\<open>t.c:1:0\<close> and is
    \<^verbatim>\<open>t.c:1:-1\<close> (the characters are read again as they were).
  \<^item> A file \<^verbatim>\<open>backslash newline a\<close>, one character: the read splices the first two
    characters away and returns \<^verbatim>\<open>a\<close> on line 2; after unreading \<^verbatim>\<open>a\<close> the position
    is \<^verbatim>\<open>t.c:2:0\<close>.
  \<^item> An included file \<^verbatim>\<open>b.h\<close> holding a newline, over a file \<^verbatim>\<open>a.c\<close> holding
    \<^verbatim>\<open>x newline\<close>, two characters: the second read pops \<^verbatim>\<open>b.h\<close>, both characters
    are unread into \<^verbatim>\<open>a.c\<close>, and the position \<^verbatim>\<open>b.h:1:0\<close> has become \<^verbatim>\<open>a.c:0:0\<close>.
  \<^item> A string \<^verbatim>\<open>a b backslash c\<close>, three characters with three pushback slots:
    reading the backslash has pushed \<^verbatim>\<open>c\<close> back, so the third \<^verbatim>\<open>unreadc\<close> finds
    the pushback full and fails its assertion.
  \<^item> A file \<^verbatim>\<open>backslash backslash newline newline\<close>, two characters: the reads
    return a backslash and a newline, and reading them again from the pushback
    splices the two away and returns \<^verbatim>\<open>EOF\<close> twice.
\<close>

theorem round_trip_counterexample:
  "input_position (push_stream 3 [97, NL] ''t.c'' []) = Inr ''t.c:1:0'' \<and>
   observed (round_trip 2 (push_stream 3 [97, NL] ''t.c'' []))
     = Inr ([97, NL], Inr ''t.c:1:-1'', [97, NL]) \<and>
   input_position (push_stream 3 [BACKSLASH, NL, 97] ''t.c'' []) = Inr ''t.c:1:0'' \<and>
   observed (round_trip 1 (push_stream 3 [BACKSLASH, NL, 97] ''t.c'' []))
     = Inr ([97], Inr ''t.c:2:0'', [97]) \<and>
   input_position (insert_stream 3 [NL] ''b.h'' (push_stream 3 [120, NL] ''a.c'' []))
     = Inr ''b.h:1:0'' \<and>
   observed (round_trip 2 (insert_stream 3 [NL] ''b.h'' (push_stream 3 [120, NL] ''a.c'' [])))
     = Inr ([NL, 120], Inr ''a.c:0:0'', [NL, 120]) \<and>
   round_trip 3 (push_stream_string 3 [97, 98, BACKSLASH, 99] []) = Inl Assertion_Failed \<and>
   observed (round_trip 2 (push_stream 3 [BACKSLASH, BACKSLASH, NL, NL] ''t.c'' []))
     = Inr ([BACKSLASH, NL], Inr ''t.c:2:-1'', [EOF, EOF])"
  by code_simp

text \<open>
  C1, amended. Let \<open>n\<close> calls of \<^verbatim>\<open>readc\<close> return the characters \<open>cs\<close> and leave the unit
  that was on top in place, as \<open>f1\<close>. If no character of \<open>cs\<close> is negative, the
  pushback count of \<open>f1\<close> plus \<open>n\<close> is within the pushback array, and no backslash of
  \<open>cs\<close> has a newline after it (in \<open>cs\<close>, or, for the last character, as the next raw
  character of \<open>f1\<close>), then unreading \<open>cs\<close> in reverse order succeeds and \<open>n\<close> more
  calls of \<^verbatim>\<open>readc\<close> return \<open>cs\<close> again. The unit keeps its name; when no character of
  \<open>cs\<close> is a newline, unreading leaves the line as it is and takes \<open>n\<close> from the
  column. So if moreover no newline was read and the reads moved the position \<open>n\<close>
  columns forward on the same line (nothing was spliced away), the line, the column
  and the position string after the calls of \<^verbatim>\<open>unreadc\<close> are those before the first
  read.
\<close>

theorem round_trip_amended:
  assumes "readc_n n (f # rest) = Inr (cs, f1 # rest)"
    and "\<forall>c\<in>set cs. 0 \<le> c"
    and "buflen f1 + n \<le> length (buf f1)"
    and "splice_free cs"
    and "cs \<noteq> [] \<and> List.last cs = BACKSLASH \<longrightarrow> peek f1 \<noteq> NL"
  shows "\<exists>f2. unreadc_all (rev cs) (f1 # rest) = Inr (f2 # rest) \<and>
              round_trip n (f # rest) = Inr (cs, f2 # rest, cs) \<and>
              name f2 = name f \<and>
              (NL \<notin> set cs \<longrightarrow> line f2 = line f1 \<and> column f2 = column f1 - of_nat n) \<and>
              (NL \<notin> set cs \<and> line f1 = line f \<and> column f1 = column f + of_nat n \<longrightarrow>
                 line f2 = line f \<and> column f2 = column f \<and>
                 input_position (f2 # rest) = input_position (f # rest))"
proof -
  from readc_n_name [OF assms(1)] have nm: "name f1 = name f" and len: "length cs = n"
    by simp_all
  have "\<forall>c\<in>set (rev cs). 0 \<le> c" "buflen f1 + length (rev cs) \<le> length (buf f1)"
    using assms(2,3) len by simp_all
  from unreadc_all_pushed [OF this, of rest] obtain f2 where
    u: "unreadc_all (rev cs) (f1 # rest) = Inr (f2 # rest)" and
    f2: "pushed f2 = cs @ pushed f1" "buflen f2 = buflen f1 + n"
      "length (buf f2) = length (buf f1)" "file_p f2 = file_p f1" "p f2 = p f1"
      "last_c f2 = last_c f1" "name f2 = name f1" and
    pos: "NL \<notin> set cs \<longrightarrow> line f2 = line f1 \<and> column f2 = column f1 - of_nat n"
    using len by auto
  have b2: "buflen f2 \<le> length (buf f2)" and b1: "buflen f1 \<le> length (buf f1)"
    using f2 assms(3) by simp_all
  from replay [OF f2(1) b2 b1 f2(4,5,6) assms(2,4,5), of rest] len obtain f3 where
    r: "readc_n n (f2 # rest) = Inr (cs, f3 # rest)" by auto
  have rt: "round_trip n (f # rest) = Inr (cs, f2 # rest, cs)"
    by (simp add: round_trip_def assms(1) u r)
  have n2: "name f2 = name f" using f2(7) nm by simp
  have "line f2 = line f \<and> column f2 = column f \<and>
          input_position (f2 # rest) = input_position (f # rest)"
    if same: "NL \<notin> set cs" "line f1 = line f" "column f1 = column f + of_nat n"
  proof -
    from pos same have "line f2 = line f" "column f2 = column f" by simp_all
    with n2 show ?thesis
      by (simp add: input_position_def vec_len_def vec_tail_def)
  qed
  with u rt n2 pos show ?thesis by blast
qed

text \<open>
  A file \<^verbatim>\<open>a backslash b newline\<close> with three pushback slots, two characters: the
  reads return \<^verbatim>\<open>a\<close> and the backslash and leave \<^verbatim>\<open>b\<close> pushed back; the round trip
  returns the two characters again, and the position after unreading is the one
  of the start, \<^verbatim>\<open>t.c:1:0\<close>.
\<close>

theorem round_trip_amended_witness:
  "readc_n 2 [make_file 3 [97, BACKSLASH, 98, NL] ''t.c'' False]
     = Inr ([97, BACKSLASH],
            [\<lparr>file_p = Some [NL], p = [], name = Some ''t.c'', line = 1, column = 2,
               last_c = 98, buf = [98, 0, 0], buflen = 1, autopop = False\<rparr>]) \<and>
   (\<exists>f2. round_trip 2 [make_file 3 [97, BACKSLASH, 98, NL] ''t.c'' False]
            = Inr ([97, BACKSLASH], [f2], [97, BACKSLASH]) \<and>
         line f2 = 1 \<and> column f2 = 0 \<and>
         input_position [f2] = input_position [make_file 3 [97, BACKSLASH, 98, NL] ''t.c'' False]) \<and>
   input_position [make_file 3 [97, BACKSLASH, 98, NL] ''t.c'' False] = Inr ''t.c:1:0''"
proof -
  let ?f = "make_file 3 [97, BACKSLASH, 98, NL] ''t.c'' False"
  let ?f1 = "\<lparr>file_p = Some [NL], p = [], name = Some ''t.c'', line = 1, column = 2,
               last_c = 98, buf = [98, 0, 0], buflen = 1, autopop = False\<rparr>"
  have r: "readc_n 2 [?f] = Inr ([97, BACKSLASH], [?f1])"
    by (simp add: make_file_def readc.simps readc_pass_def get_def vec_tail_def
        readc_file_def getc_def unreadc_def advance_def EOF_def numeral_eq_Suc Let_def)
  have c: "\<forall>c\<in>set [97, BACKSLASH]. (0::int) \<le> c" by simp
  have room: "buflen ?f1 + 2 \<le> length (buf ?f1)" by simp
  have sf: "splice_free [97, BACKSLASH]" by simp
  have pk: "[97, BACKSLASH] \<noteq> [] \<and> List.last [97, BACKSLASH] = BACKSLASH \<longrightarrow> peek ?f1 \<noteq> NL"
    by (simp add: peek_def)
  have nl: "NL \<notin> set [97, BACKSLASH]" by simp
  have lc: "line ?f1 = line ?f" "column ?f1 = column ?f + of_nat 2" "line ?f = 1" "column ?f = 0"
    by (simp_all add: make_file_def)
  have q: "input_position [?f] = Inr ''t.c:1:0''" by code_simp
  from round_trip_amended [OF r c room sf pk] nl lc
  have "\<exists>f2. round_trip 2 [?f] = Inr ([97, BACKSLASH], [f2], [97, BACKSLASH]) \<and>
          line f2 = 1 \<and> column f2 = 0 \<and> input_position [f2] = input_position [?f]"
    by auto
  with r q show ?thesis by blast
qed

end
